theory Spec2Isabelle
  imports Main
begin

section \<open>Data model\<close>

text \<open>
  A node of the \<open>files\<close> connection, with the fields the GraphQL selection of
  \<open>fetchAllFiles\<close> asks for and \<open>resolveFileInfo\<close> / \<open>downloadFiles\<close> read:
  \<open>__typename\<close>, \<open>id\<close>, \<open>url\<close>, \<open>image { url }\<close>, \<open>originalSource { url }\<close> and
  \<open>embeddedUrl\<close>. A field that is \<open>null\<close> or was not selected for the node's type is
  \<open>None\<close>. The type name is the string the API sends, so any string can occur.
\<close>

record media_source =
  media_url :: "string option"

record file_node =
  typename :: string
  node_id :: "string option"
  url :: "string option"
  image :: "media_source option"
  originalSource :: "media_source option"
  embeddedUrl :: "string option"

record edge =
  edge_cursor :: string
  edge_node :: file_node

text \<open>
  \<open>data.data.files\<close>: \<open>edges\<close> may be \<open>null\<close> (the source reads \<open>edges || []\<close>),
  \<open>pageInfo.hasNextPage\<close> is a Boolean.
\<close>

record files_connection =
  edges :: "edge list option"
  pageInfo_hasNextPage :: bool

text \<open>
  The parsed response body: \<open>data.errors\<close> (\<open>None\<close> when absent; an array, even an
  empty one, is truthy in JavaScript) and \<open>data.data.files\<close> (\<open>None\<close> when the path
  \<open>data.data.files\<close> does not lead to a connection object).
\<close>

record gql_body =
  errors :: "string list option"
  files :: "files_connection option"

text \<open>
  What \<open>fetch\<close> of one page gives: the promise rejects (network unreachable, or the
  request aborted by the 15 second timer) with a message, or it resolves to a response
  with \<open>ok\<close>, \<open>status\<close>, the body as text, and the body parsed as JSON (\<open>None\<close> when
  \<open>res.json()\<close> rejects).
\<close>

record gql_response =
  ok :: bool
  status :: nat
  body_text :: string
  body_json :: "gql_body option"

datatype page_fetch =
    FetchRejected string
  | HttpResponse gql_response

text \<open>
  The errors thrown inside \<open>fetchAllFiles\<close>: the three \<open>new Error(...)\<close> of the
  source, the rejection of \<open>res.json()\<close>, and the \<open>TypeError\<close> of reading a property
  of \<open>undefined\<close> or \<open>null\<close>: \<open>TypeError ''cursor''\<close> for \<open>edges[edges.length - 1].cursor\<close>
  on a page without edges, \<open>TypeError ''files''\<close> for a body in which
  \<open>data.data.files.edges\<close> or \<open>data.data.files.pageInfo.hasNextPage\<close> cannot be reached.
\<close>

datatype js_error =
    NetworkError string
  | GraphQLHttpError nat string
  | InvalidJson
  | QueryFailed
  | TypeError string

text \<open>
  The lines written to the console, with the values they are rendered from (the
  percentage of a progress line is computed from its two counts, \<open>downloaded\<close> and
  \<open>total\<close>).
\<close>

datatype event =
    FetchingPage nat
  | GraphQLErrors "string list"
  | SkippedNoUrl "string option" string
  | SkippedExisting nat nat string string
  | FailedDownload string string
  | Saved nat nat string string
  | ErrorDownloading string string
  | AllProcessed nat nat
  | FetchingAll
  | Found nat
  | Done string
  | ErrorLine js_error
  | MissingConfig

section \<open>The enumerator: \<open>fetchAllFiles\<close>\<close>

text \<open>The local variables of \<open>fetchAllFiles\<close>, and the console output so far.\<close>

record enum_state =
  allFiles :: "file_node list"
  hasNextPage :: bool
  cursor :: "string option"
  page :: nat
  console :: "event list"

definition enum_init :: enum_state where
  "enum_init = \<lparr>allFiles = [], hasNextPage = True, cursor = None, page = 1, console = []\<rparr>"

text \<open>
  One iteration of the \<open>while\<close> loop, given what the request of this iteration came
  back with. A \<open>throw\<close> is \<open>Inl\<close>, with the console output up to it.
\<close>

definition fetch_step :: "page_fetch \<Rightarrow> enum_state \<Rightarrow> (js_error \<times> event list) + enum_state" where
  "fetch_step resp st =
     (let out = console st @ [FetchingPage (page st)] in
      case resp of
        FetchRejected msg \<Rightarrow> Inl (NetworkError msg, out)
      | HttpResponse res \<Rightarrow>
          if \<not> ok res then Inl (GraphQLHttpError (status res) (body_text res), out)
          else
            (case body_json res of
               None \<Rightarrow> Inl (InvalidJson, out)
             | Some data \<Rightarrow>
                 (case errors data of
                    Some errs \<Rightarrow> Inl (QueryFailed, out @ [GraphQLErrors errs])
                  | None \<Rightarrow>
                      (case files data of
                         None \<Rightarrow> Inl (TypeError ''files'', out)
                       | Some conn \<Rightarrow>
                           (let es = (case edges conn of None \<Rightarrow> [] | Some es \<Rightarrow> es);
                                acc = allFiles st @ map edge_node es
                            in if pageInfo_hasNextPage conn
                               then (if es = [] then Inl (TypeError ''cursor'', out)
                                     else Inr \<lparr>allFiles = acc, hasNextPage = True,
                                               cursor = Some (edge_cursor (last es)),
                                               page = page st + 1, console = out\<rparr>)
                               else Inr \<lparr>allFiles = acc, hasNextPage = False,
                                         cursor = None,
                                         page = page st + 1, console = out\<rparr>)))))"

text \<open>
  The endpoint answers the request of page number \<open>n\<close> sent with cursor \<open>c\<close>. The loop
  runs for as long as pages report \<open>hasNextPage\<close>, which may be forever: not returning
  is \<open>None\<close>.
\<close>

type_synonym endpoint = "nat \<Rightarrow> string option \<Rightarrow> page_fetch"

partial_function (option) fetchAllFiles_loop ::
    "endpoint \<Rightarrow> enum_state \<Rightarrow> ((js_error \<times> event list) + enum_state) option" where
  "fetchAllFiles_loop ep st =
     (if hasNextPage st
      then (case fetch_step (ep (page st) (cursor st)) st of
              Inl e \<Rightarrow> Some (Inl e)
            | Inr st' \<Rightarrow> fetchAllFiles_loop ep st')
      else Some (Inr st))"

definition fetchAllFiles ::
    "endpoint \<Rightarrow> ((js_error \<times> event list) + (file_node list \<times> event list)) option" where
  "fetchAllFiles ep =
     (case fetchAllFiles_loop ep enum_init of
        None \<Rightarrow> None
      | Some (Inl e) \<Rightarrow> Some (Inl e)
      | Some (Inr st) \<Rightarrow> Some (Inr (allFiles st, console st)))"

text \<open>
  A mock endpoint that answers the \<open>n\<close>-th request with the \<open>n\<close>-th entry of a script,
  whatever the cursor, and refuses the connection once the script is used up.
\<close>

definition scripted :: "page_fetch list \<Rightarrow> endpoint" where
  "scripted rs n c =
     (if 1 \<le> n \<and> n \<le> length rs then rs ! (n - 1) else FetchRejected ''script exhausted'')"

text \<open>A successful response that carries the connection \<open>conn\<close>.\<close>

definition page_of :: "files_connection \<Rightarrow> page_fetch" where
  "page_of conn =
     HttpResponse \<lparr>ok = True, status = 200, body_text = [],
                   body_json = Some \<lparr>errors = None, files = Some conn\<rparr>\<rparr>"

definition nodes_of :: "files_connection \<Rightarrow> file_node list" where
  "nodes_of conn = map edge_node (case edges conn of None \<Rightarrow> [] | Some es \<Rightarrow> es)"

text \<open>The response \<open>resp\<close> passes every check of the loop body and carries \<open>conn\<close>.\<close>

definition delivers :: "page_fetch \<Rightarrow> files_connection \<Rightarrow> bool" where
  "delivers resp conn =
     (case resp of
        FetchRejected msg \<Rightarrow> False
      | HttpResponse res \<Rightarrow>
          ok res \<and>
          (case body_json res of
             None \<Rightarrow> False
           | Some d \<Rightarrow> errors d = None \<and> files d = Some conn))"

section \<open>Classification: \<open>resolveFileInfo\<close>\<close>

text \<open>\<open>x?.url\<close>: \<open>undefined\<close> when \<open>x\<close> is \<open>null\<close> or \<open>undefined\<close>.\<close>

definition opt_url :: "media_source option \<Rightarrow> string option" where
  "opt_url m = (case m of None \<Rightarrow> None | Some s \<Rightarrow> media_url s)"

text \<open>The \<open>switch\<close> on \<open>file.__typename\<close>; the result is the pair \<open>{ url, folder }\<close>.\<close>

definition resolveFileInfo :: "file_node \<Rightarrow> string option \<times> string" where
  "resolveFileInfo file =
     (if typename file = ''GenericFile'' then (url file, ''generic'')
      else if typename file = ''MediaImage'' then (opt_url (image file), ''images'')
      else if typename file = ''Video'' then (opt_url (originalSource file), ''videos'')
      else if typename file = ''ExternalVideo'' then (embeddedUrl file, ''external'')
      else if typename file = ''Model3d'' then (opt_url (originalSource file), ''models'')
      else (None, ''unknown''))"

section \<open>File names\<close>

text \<open>
  \<open>s.split(c)\<close> of JavaScript for a one-character separator: the pieces between the
  occurrences of \<open>c\<close>, never an empty list.
\<close>

fun split_on :: "char \<Rightarrow> string \<Rightarrow> string list" where
  "split_on c [] = [[]]"
| "split_on c (x # xs) =
     (let r = split_on c xs
      in if x = c then [] # r else (x # hd r) # tl r)"

text \<open>\<open>url.split("?")[0]\<close>\<close>

definition cleanUrl :: "string \<Rightarrow> string" where
  "cleanUrl u = hd (split_on (CHR ''?'') u)"

text \<open>
  \<open>path.basename\<close> of Node on POSIX: trailing separators are ignored, and the result
  is what follows the last separator that is left (the whole string when there is
  none, the empty string when the path has separators only).
\<close>

definition basename :: "string \<Rightarrow> string" where
  "basename p =
     rev (takeWhile (\<lambda>c. c \<noteq> CHR ''/'') (dropWhile (\<lambda>c. c = CHR ''/'') (rev p)))"

definition fileName_of :: "string \<Rightarrow> string" where
  "fileName_of u = basename (cleanUrl u)"

text \<open>
  The file name in the words of the specification: the substring after the final path
  separator, before the first \<open>?\<close>.
\<close>

definition spec_fileName :: "string \<Rightarrow> string" where
  "spec_fileName u = last (split_on (CHR ''/'') (takeWhile (\<lambda>c. c \<noteq> CHR ''?'') u))"

section \<open>The pipeline: \<open>downloadFiles\<close>\<close>

text \<open>
  The file system maps a path to what is there; \<open>fs.existsSync\<close> is true of files and
  of directories.
\<close>

datatype fs_entry = Directory | File string

type_synonym filesystem = "string \<rightharpoonup> fs_entry"

definition existsSync :: "filesystem \<Rightarrow> string \<Rightarrow> bool" where
  "existsSync fs p = (fs p \<noteq> None)"

text \<open>
  What \<open>fetch(url)\<close> of a file's content gives: the promise rejects with a message, or
  it resolves to a response with \<open>ok\<close>, \<open>statusText\<close> and the body, whose reading
  (\<open>res.arrayBuffer()\<close>) may reject in turn (\<open>Inl\<close>).
\<close>

record content_response =
  content_ok :: bool
  statusText :: string
  arrayBuffer :: "string + string"

datatype content_fetch =
    ContentRejected string
  | ContentResponse content_response

text \<open>
  The surroundings of a run: the output directory, \<open>path.join\<close> (taken as given: no
  property below depends on how it normalises), the network, which answers the latest
  of the content requests made so far (the list ends with the URL now asked for), and
  the failures of \<open>fs.writeFileSync\<close> (\<open>Some\<close> message when writing this content to
  this path of this file system throws; nothing is written then).
\<close>

record dl_env =
  OUTPUT_DIR :: string
  path_join :: "string list \<Rightarrow> string"
  content_network :: "string list \<Rightarrow> content_fetch"
  write_error :: "filesystem \<Rightarrow> string \<Rightarrow> string \<Rightarrow> string option"

text \<open>
  The state of \<open>downloadFiles\<close>: the counter, the file system, the URLs handed to
  \<open>fetch\<close> so far, and the console output.
\<close>

record dl_state =
  downloaded :: nat
  fs :: filesystem
  fetched :: "string list"
  dl_console :: "event list"

text \<open>
  The body of the \<open>try\<close> block, entered with the request for \<open>u\<close> already recorded.
  A rejection or a \<open>throw\<close> is \<open>Inl\<close> with the message; the \<open>continue\<close> on a response
  that is not \<open>ok\<close> is a normal exit.
\<close>

definition try_download ::
    "dl_env \<Rightarrow> nat \<Rightarrow> string \<Rightarrow> string \<Rightarrow> string \<Rightarrow> dl_state \<Rightarrow> string + dl_state" where
  "try_download env n_total folder fileName filePath st =
     (case content_network env (fetched st) of
        ContentRejected msg \<Rightarrow> Inl msg
      | ContentResponse res \<Rightarrow>
          if \<not> content_ok res
          then Inr (st\<lparr>dl_console := dl_console st @ [FailedDownload fileName (statusText res)]\<rparr>)
          else
            (case arrayBuffer res of
               Inl msg \<Rightarrow> Inl msg
             | Inr buffer \<Rightarrow>
                 (case write_error env (fs st) filePath buffer of
                    Some msg \<Rightarrow> Inl msg
                  | None \<Rightarrow>
                      Inr (st\<lparr>fs := (fs st)(filePath \<mapsto> File buffer),
                              downloaded := downloaded st + 1,
                              dl_console := dl_console st @
                                [Saved (downloaded st + 1) n_total folder fileName]\<rparr>))))"

text \<open>
  \<open>!x\<close> for a value that is a string, \<open>null\<close> or \<open>undefined\<close>: the last two and the
  empty string are falsy.
\<close>

definition falsy :: "string option \<Rightarrow> bool" where
  "falsy x = (case x of None \<Rightarrow> True | Some s \<Rightarrow> s = [])"

text \<open>The string of a URL that is there (the empty string stands for an absent one).\<close>

definition url_string :: "string option \<Rightarrow> string" where
  "url_string x = (case x of None \<Rightarrow> [] | Some s \<Rightarrow> s)"

text \<open>The target path of a record's URL.\<close>

definition filePath_of :: "dl_env \<Rightarrow> string \<Rightarrow> string \<Rightarrow> string" where
  "filePath_of env folder u = path_join env [OUTPUT_DIR env, folder, fileName_of u]"

text \<open>One iteration of the \<open>for\<close> loop.\<close>

definition download_step :: "dl_env \<Rightarrow> nat \<Rightarrow> file_node \<Rightarrow> dl_state \<Rightarrow> dl_state" where
  "download_step env n_total file st =
     (case resolveFileInfo file of
        (ourl, folder) \<Rightarrow>
          if falsy ourl
          then st\<lparr>dl_console := dl_console st @ [SkippedNoUrl (node_id file) (typename file)]\<rparr>
          else
            (let u = url_string ourl;
                 fileName = fileName_of u;
                 filePath = filePath_of env folder u
             in if existsSync (fs st) filePath
                then st\<lparr>downloaded := downloaded st + 1,
                        dl_console := dl_console st @
                          [SkippedExisting (downloaded st + 1) n_total folder fileName]\<rparr>
                else
                  (let st1 = st\<lparr>fetched := fetched st @ [u]\<rparr> in
                   case try_download env n_total folder fileName filePath st1 of
                     Inl msg \<Rightarrow> st1\<lparr>dl_console := dl_console st1 @ [ErrorDownloading u msg]\<rparr>
                   | Inr st' \<Rightarrow> st')))"

fun download_loop :: "dl_env \<Rightarrow> nat \<Rightarrow> file_node list \<Rightarrow> dl_state \<Rightarrow> dl_state" where
  "download_loop env n_total [] st = st"
| "download_loop env n_total (file # rest) st =
     download_loop env n_total rest (download_step env n_total file st)"

definition dl_init :: "filesystem \<Rightarrow> dl_state" where
  "dl_init fs0 = \<lparr>downloaded = 0, fs = fs0, fetched = [], dl_console = []\<rparr>"

definition downloadFiles :: "dl_env \<Rightarrow> file_node list \<Rightarrow> filesystem \<Rightarrow> dl_state" where
  "downloadFiles env files0 fs0 =
     (let n_total = length files0;
          st = download_loop env n_total files0 (dl_init fs0)
      in st\<lparr>dl_console := dl_console st @ [AllProcessed (downloaded st) n_total]\<rparr>)"

section \<open>The program\<close>

text \<open>
  The check of the configuration at the top of the module: when the store or the token
  is missing (\<open>undefined\<close> or empty), an error line and \<open>process.exit(1)\<close>.
\<close>

definition config_check :: "string option \<Rightarrow> string option \<Rightarrow> (nat \<times> event list) option" where
  "config_check store token =
     (if falsy store \<or> falsy token then Some (1, [MissingConfig]) else None)"

text \<open>
  The main function: its \<open>catch\<close> writes the message of whatever was thrown and
  returns, so the process ends with the exit status Node gives a program that neither
  calls \<open>process.exit\<close> nor dies of an uncaught error: 0.
\<close>

record run_result =
  exit_code :: nat
  run_console :: "event list"
  run_fs :: filesystem
  run_fetched :: "string list"

definition main :: "endpoint \<Rightarrow> dl_env \<Rightarrow> filesystem \<Rightarrow> run_result option" where
  "main ep env fs0 =
     (case fetchAllFiles ep of
        None \<Rightarrow> None
      | Some (Inl (err, out)) \<Rightarrow>
          Some \<lparr>exit_code = 0, run_console = [FetchingAll] @ out @ [ErrorLine err],
                 run_fs = fs0, run_fetched = []\<rparr>
      | Some (Inr (fls, out)) \<Rightarrow>
          (let st = downloadFiles env fls fs0
           in Some \<lparr>exit_code = 0,
                     run_console = [FetchingAll] @ out @ [Found (length fls)] @
                                   dl_console st @ [Done (OUTPUT_DIR env)],
                     run_fs = fs st, run_fetched = fetched st\<rparr>))"

section \<open>Notions used to state the properties\<close>

text \<open>
  The record has a URL (\<open>url\<close> is truthy); its URL and its target path; the content
  fetch and the write of the record would both succeed from the state \<open>st\<close>; the record
  is counted by the iteration that starts in \<open>st\<close> (it is already at its target path,
  or it is fetched and written).
\<close>

definition has_url :: "file_node \<Rightarrow> bool" where
  "has_url f = (\<not> falsy (fst (resolveFileInfo f)))"

definition url_of :: "file_node \<Rightarrow> string" where
  "url_of f = url_string (fst (resolveFileInfo f))"

definition target :: "dl_env \<Rightarrow> file_node \<Rightarrow> string" where
  "target env f = filePath_of env (snd (resolveFileInfo f)) (url_of f)"

definition fetch_and_write_ok :: "dl_env \<Rightarrow> file_node \<Rightarrow> dl_state \<Rightarrow> bool" where
  "fetch_and_write_ok env f st =
     (case content_network env (fetched st @ [url_of f]) of
        ContentRejected msg \<Rightarrow> False
      | ContentResponse res \<Rightarrow>
          content_ok res \<and>
          (case arrayBuffer res of
             Inl msg \<Rightarrow> False
           | Inr buffer \<Rightarrow> write_error env (fs st) (target env f) buffer = None))"

definition counted :: "dl_env \<Rightarrow> file_node \<Rightarrow> dl_state \<Rightarrow> bool" where
  "counted env f st =
     (has_url f \<and> (existsSync (fs st) (target env f) \<or> fetch_and_write_ok env f st))"

text \<open>
  The diagnostic lines of the per-item failures, and the total a progress line or the
  summary is rendered with.
\<close>

definition is_diagnostic :: "event \<Rightarrow> bool" where
  "is_diagnostic ev =
     (case ev of
        SkippedNoUrl i k \<Rightarrow> True
      | FailedDownload n s \<Rightarrow> True
      | ErrorDownloading u m \<Rightarrow> True
      | _ \<Rightarrow> False)"

definition event_total :: "event \<Rightarrow> nat option" where
  "event_total ev =
     (case ev of
        SkippedExisting d t folder n \<Rightarrow> Some t
      | Saved d t folder n \<Rightarrow> Some t
      | AllProcessed d t \<Rightarrow> Some t
      | _ \<Rightarrow> None)"

text \<open>The count a progress line or the summary is rendered with.\<close>

definition event_downloaded :: "event \<Rightarrow> nat option" where
  "event_downloaded ev =
     (case ev of
        SkippedExisting d t folder n \<Rightarrow> Some d
      | Saved d t folder n \<Rightarrow> Some d
      | AllProcessed d t \<Rightarrow> Some d
      | _ \<Rightarrow> None)"

section \<open>Example inputs\<close>

text \<open>A node with every field filled in, of the kind \<open>k\<close>.\<close>

definition mk_node :: "string \<Rightarrow> file_node" where
  "mk_node k = \<lparr>typename = k, node_id = Some ''gid://shopify/File/1'',
     url = Some ''https://cdn.example.com/a.zip'',
     image = Some \<lparr>media_url = Some ''https://cdn.example.com/i.png''\<rparr>,
     originalSource = Some \<lparr>media_url = Some ''https://cdn.example.com/o.mp4''\<rparr>,
     embeddedUrl = Some ''https://x/y.mp4''\<rparr>"

text \<open>
  A script of two pages, the first with two edges and more to come, the second with one
  edge and nothing after it; and a page that reports a next page without any edge.
\<close>

definition ex_edge :: "string \<Rightarrow> string \<Rightarrow> edge" where
  "ex_edge c k = \<lparr>edge_cursor = c, edge_node = mk_node k\<rparr>"

definition ex_pages :: "files_connection list" where
  "ex_pages =
     [\<lparr>edges = Some [ex_edge ''c1'' ''GenericFile'', ex_edge ''c2'' ''MediaImage''],
       pageInfo_hasNextPage = True\<rparr>,
      \<lparr>edges = Some [ex_edge ''c3'' ''Video''], pageInfo_hasNextPage = False\<rparr>]"

definition ex_empty_page :: "edge list option \<Rightarrow> files_connection" where
  "ex_empty_page es = \<lparr>edges = es, pageInfo_hasNextPage = True\<rparr>"

text \<open>
  A run's surroundings for the examples: segments joined with \<open>/\<close>; a network on which
  \<open>https://h/a.zip\<close> is served, \<open>https://g/a.zip\<close> answers 500, the body of
  \<open>https://h/b.zip\<close> breaks off, and every other host is unknown; a file system with
  the six folders, on which \<open>out/generic/ro.zip\<close> cannot be written.
\<close>

definition ex_join :: "string list \<Rightarrow> string" where
  "ex_join segs = foldr (\<lambda>a b. if b = [] then a else a @ ''/'' @ b) segs []"

definition ex_network :: "string list \<Rightarrow> content_fetch" where
  "ex_network reqs =
     (if reqs = [] then ContentRejected ''no request''
      else if last reqs = ''https://h/a.zip''
        then ContentResponse \<lparr>content_ok = True, statusText = ''OK'', arrayBuffer = Inr ''AAA''\<rparr>
      else if last reqs = ''https://g/a.zip''
        then ContentResponse \<lparr>content_ok = False, statusText = ''Internal Server Error'',
                               arrayBuffer = Inr []\<rparr>
      else if last reqs = ''https://h/b.zip''
        then ContentResponse \<lparr>content_ok = True, statusText = ''OK'',
                               arrayBuffer = Inl ''aborted''\<rparr>
      else if last reqs = ''https://h/ro.zip''
        then ContentResponse \<lparr>content_ok = True, statusText = ''OK'', arrayBuffer = Inr ''RRR''\<rparr>
      else ContentRejected ''ENOTFOUND'')"

definition ex_env :: dl_env where
  "ex_env = \<lparr>OUTPUT_DIR = ''out'', path_join = ex_join, content_network = ex_network,
             write_error = (\<lambda>fs p b. if p = ''out/generic/ro.zip'' then Some ''EACCES'' else None)\<rparr>"

definition generic_file :: "string \<Rightarrow> file_node" where
  "generic_file u = \<lparr>typename = ''GenericFile'', node_id = Some ''gid://1'', url = Some u,
     image = None, originalSource = None, embeddedUrl = None\<rparr>"

definition ex_fs0 :: filesystem where
  "ex_fs0 = [''out/generic'' \<mapsto> Directory, ''out/images'' \<mapsto> Directory,
             ''out/videos'' \<mapsto> Directory, ''out/models'' \<mapsto> Directory,
             ''out/external'' \<mapsto> Directory, ''out/unknown'' \<mapsto> Directory]"

definition image_without_url :: file_node where
  "image_without_url = \<lparr>typename = ''MediaImage'', node_id = Some ''gid://2'', url = None,
     image = None, originalSource = None, embeddedUrl = None\<rparr>"

definition ex_files3 :: "file_node list" where
  "ex_files3 =
     [generic_file ''https://g/a.zip'', generic_file ''https://h/a.zip'',
      generic_file ''https://h/b.zip'']"

definition ex_files :: "file_node list" where
  "ex_files =
     ex_files3 @
     [image_without_url, generic_file ''https://nohost/c.zip'', generic_file ''https://h/ro.zip'']"

definition ex_fs1 :: filesystem where
  "ex_fs1 = ex_fs0(''out/generic/a.zip'' \<mapsto> File ''OLD'')"

definition ex_offline :: dl_env where
  "ex_offline = ex_env\<lparr>content_network := (\<lambda>reqs. ContentRejected ''offline'')\<rparr>"

definition ex_clean_files :: "file_node list" where
  "ex_clean_files = [generic_file ''https://h/a.zip'', image_without_url]"

text \<open>Three records of which the last is the one that is saved.\<close>

definition ex_last_saved :: "file_node list" where
  "ex_last_saved =
     [image_without_url, generic_file ''https://g/a.zip'', generic_file ''https://h/a.zip'']"

section \<open>Enumeration\<close>

lemma delivers_page_of: "delivers (page_of conn) conn"
  by (simp add: delivers_def page_of_def)

lemma fetch_step_more:
  assumes "delivers resp conn" "pageInfo_hasNextPage conn" "edges conn = Some es" "es \<noteq> []"
  shows "fetch_step resp st =
           Inr \<lparr>allFiles = allFiles st @ map edge_node es, hasNextPage = True,
                cursor = Some (edge_cursor (last es)), page = page st + 1,
                console = console st @ [FetchingPage (page st)]\<rparr>"
  using assms
  by (auto simp: delivers_def fetch_step_def Let_def split: page_fetch.splits option.splits)

lemma fetch_step_final:
  assumes "delivers resp conn" "\<not> pageInfo_hasNextPage conn"
  shows "fetch_step resp st =
           Inr \<lparr>allFiles = allFiles st @ nodes_of conn, hasNextPage = False,
                cursor = None, page = page st + 1,
                console = console st @ [FetchingPage (page st)]\<rparr>"
  using assms
  by (auto simp: delivers_def fetch_step_def nodes_of_def Let_def
           split: page_fetch.splits option.splits)

lemma loop_stop: "\<not> hasNextPage st \<Longrightarrow> fetchAllFiles_loop ep st = Some (Inr st)"
  by (subst fetchAllFiles_loop.simps) simp

lemma loop_go:
  "hasNextPage st \<Longrightarrow> fetch_step (ep (page st) (cursor st)) st = Inr st' \<Longrightarrow>
   fetchAllFiles_loop ep st = fetchAllFiles_loop ep st'"
  by (subst fetchAllFiles_loop.simps) simp

lemma loop_throw:
  "hasNextPage st \<Longrightarrow> fetch_step (ep (page st) (cursor st)) st = Inl e \<Longrightarrow>
   fetchAllFiles_loop ep st = Some (Inl e)"
  by (subst fetchAllFiles_loop.simps) simp

lemma loop_script:
  "ps \<noteq> [] \<Longrightarrow>
   \<forall>i<length ps. \<forall>c. delivers (ep (page st + i) c) (ps ! i) \<Longrightarrow>
   \<forall>i<length ps - 1. pageInfo_hasNextPage (ps ! i) \<and> nodes_of (ps ! i) \<noteq> [] \<Longrightarrow>
   \<not> pageInfo_hasNextPage (last ps) \<Longrightarrow>
   hasNextPage st \<Longrightarrow>
   \<exists>st'. fetchAllFiles_loop ep st = Some (Inr st') \<and>
         page st' = page st + length ps \<and>
         allFiles st' = allFiles st @ concat (map nodes_of ps) \<and>
         console st' = console st @ map FetchingPage [page st ..< page st + length ps] \<and>
         cursor st' = None \<and> \<not> hasNextPage st'"
proof (induction ps arbitrary: st)
  case Nil
  then show ?case by simp
next
  case (Cons p ps)
  have d: "delivers (ep (page st) (cursor st)) p"
    using Cons.prems(2) by (metis add.right_neutral length_greater_0_conv list.discI nth_Cons_0)
  show ?case
  proof (cases "ps = []")
    case True
    then have np: "\<not> pageInfo_hasNextPage p" using Cons.prems(4) by simp
    let ?st' = "\<lparr>allFiles = allFiles st @ nodes_of p, hasNextPage = False,
                cursor = None, page = page st + 1,
                console = console st @ [FetchingPage (page st)]\<rparr>"
    have "fetchAllFiles_loop ep st = fetchAllFiles_loop ep ?st'"
      using loop_go [where ep = ep and st = st, OF Cons.prems(5) fetch_step_final [where st = st, OF d np]] .
    also have "\<dots> = Some (Inr ?st')" by (rule loop_stop) simp
    finally show ?thesis using True by (intro exI [of _ ?st']) simp
  next
    case False
    have hp: "pageInfo_hasNextPage p" and ne: "nodes_of p \<noteq> []"
      using Cons.prems(3) False by (auto dest: spec [of _ 0])
    obtain es where es: "edges p = Some es" "es \<noteq> []"
      using ne by (auto simp: nodes_of_def split: option.splits)
    let ?st' = "\<lparr>allFiles = allFiles st @ map edge_node es, hasNextPage = True,
                cursor = Some (edge_cursor (last es)), page = page st + 1,
                console = console st @ [FetchingPage (page st)]\<rparr>"
    have step: "fetchAllFiles_loop ep st = fetchAllFiles_loop ep ?st'"
      using loop_go [where ep = ep and st = st, OF Cons.prems(5) fetch_step_more [where st = st, OF d hp es]] .
    have a2: "\<forall>i<length ps. \<forall>c. delivers (ep (page ?st' + i) c) (ps ! i)"
    proof (intro allI impI)
      fix i c assume "i < length ps"
      then have "delivers (ep (page st + Suc i) c) ((p # ps) ! Suc i)"
        using Cons.prems(2) by (metis Suc_less_eq length_Cons)
      then show "delivers (ep (page ?st' + i) c) (ps ! i)" by simp
    qed
    have a3: "\<forall>i<length ps - 1. pageInfo_hasNextPage (ps ! i) \<and> nodes_of (ps ! i) \<noteq> []"
    proof (intro allI impI)
      fix i assume "i < length ps - 1"
      then have "Suc i < length (p # ps) - 1" by simp
      then have "pageInfo_hasNextPage ((p # ps) ! Suc i) \<and> nodes_of ((p # ps) ! Suc i) \<noteq> []"
        using Cons.prems(3) by blast
      then show "pageInfo_hasNextPage (ps ! i) \<and> nodes_of (ps ! i) \<noteq> []" by simp
    qed
    have a4: "\<not> pageInfo_hasNextPage (last ps)" using Cons.prems(4) False by simp
    obtain st'' where r: "fetchAllFiles_loop ep ?st' = Some (Inr st'')"
        "page st'' = page ?st' + length ps"
        "allFiles st'' = allFiles ?st' @ concat (map nodes_of ps)"
        "console st'' = console ?st' @ map FetchingPage [page ?st' ..< page ?st' + length ps]"
        "cursor st'' = None" "\<not> hasNextPage st''"
      using Cons.IH [OF False a2 a3 a4, of] by auto
    have n: "nodes_of p = map edge_node es" using es by (simp add: nodes_of_def)
    have up: "[page st ..< page st + length (p # ps)] = page st # [page st + 1 ..< page st + 1 + length ps]"
      by (subst upt_rec) simp
    show ?thesis
      using r step n up by (intro exI [of _ st'']) simp
  qed
qed


lemma fetch_step_cursor_error:
  assumes "fetch_step resp st = Inl (TypeError ''cursor'', out)"
  shows "\<exists>res d conn. resp = HttpResponse res \<and> body_json res = Some d \<and>
           files d = Some conn \<and> pageInfo_hasNextPage conn \<and>
           (edges conn = None \<or> edges conn = Some [])"
  using assms
  by (auto simp: fetch_step_def Let_def split: page_fetch.splits option.splits if_splits)

lemma loop_no_cursor_error:
  assumes pre: "\<forall>n c res d conn. ep n c = HttpResponse res \<longrightarrow> body_json res = Some d \<longrightarrow>
            files d = Some conn \<longrightarrow> pageInfo_hasNextPage conn \<longrightarrow>
            edges conn \<noteq> None \<and> edges conn \<noteq> Some []"
    and ret: "fetchAllFiles_loop ep st = Some r"
  shows "r \<noteq> Inl (TypeError ''cursor'', out)"
proof -
  have "fetchAllFiles_loop ep st = Some r \<Longrightarrow>
        (\<forall>n c res d conn. ep n c = HttpResponse res \<longrightarrow> body_json res = Some d \<longrightarrow>
            files d = Some conn \<longrightarrow> pageInfo_hasNextPage conn \<longrightarrow>
            edges conn \<noteq> None \<and> edges conn \<noteq> Some []) \<longrightarrow> r \<noteq> Inl (TypeError ''cursor'', out)"
  proof (induction rule: fetchAllFiles_loop.raw_induct [rotated 1, consumes 1])
    case (1 loop ep st r)
    show ?case
    proof (intro impI)
      assume p: "\<forall>n c res d conn. ep n c = HttpResponse res \<longrightarrow> body_json res = Some d \<longrightarrow>
            files d = Some conn \<longrightarrow> pageInfo_hasNextPage conn \<longrightarrow>
            edges conn \<noteq> None \<and> edges conn \<noteq> Some []"
      show "r \<noteq> Inl (TypeError ''cursor'', out)"
      proof (cases "hasNextPage st")
        case False
        then show ?thesis using 1(2) by auto
      next
        case True
        show ?thesis
        proof (cases "fetch_step (ep (page st) (cursor st)) st")
          case (Inl e)
          then have "r = Inl e" using 1(2) True by simp
          moreover have "e \<noteq> (TypeError ''cursor'', out)"
          proof
            assume "e = (TypeError ''cursor'', out)"
            then obtain res d conn where
              "ep (page st) (cursor st) = HttpResponse res" "body_json res = Some d"
              "files d = Some conn" "pageInfo_hasNextPage conn"
              "edges conn = None \<or> edges conn = Some []"
              using fetch_step_cursor_error Inl by blast
            then show False using p by blast
          qed
          ultimately show ?thesis by simp
        next
          case (Inr st')
          then have "loop ep st' = Some r" using 1(2) True by simp
          then show ?thesis using 1(1) p by blast
        qed
      qed
    qed
  qed
  then show ?thesis using pre ret by blast
qed

lemma scripted_in_set: "scripted rs n c = HttpResponse res \<Longrightarrow> HttpResponse res \<in> set rs"
proof -
  assume a: "scripted rs n c = HttpResponse res"
  then have b: "1 \<le> n \<and> n \<le> length rs"
    by (auto simp: scripted_def split: if_splits)
  then have "n - 1 < length rs" by arith
  then have "rs ! (n - 1) \<in> set rs" by (rule nth_mem)
  then show ?thesis using a b by (simp add: scripted_def)
qed

text \<open>An endpoint that answers one good page and then drops the connection.\<close>

lemma loop_reject_after_first_page:
  "fetchAllFiles_loop (scripted [page_of (ex_pages ! 0), FetchRejected ''ECONNRESET'']) enum_init =
     Some (Inl (NetworkError ''ECONNRESET'', [FetchingPage 1, FetchingPage 2]))"
proof -
  let ?ep = "scripted [page_of (ex_pages ! 0), FetchRejected ''ECONNRESET'']"
  let ?st1 = "\<lparr>allFiles = [mk_node ''GenericFile'', mk_node ''MediaImage''], hasNextPage = True,
               cursor = Some ''c2'', page = 2, console = [FetchingPage 1]\<rparr>"
  have s1: "fetch_step (?ep (page enum_init) (cursor enum_init)) enum_init = Inr ?st1"
    by (simp add: scripted_def enum_init_def fetch_step_def page_of_def ex_pages_def ex_edge_def)
  have s2: "fetch_step (?ep (page ?st1) (cursor ?st1)) ?st1 =
              Inl (NetworkError ''ECONNRESET'', [FetchingPage 1, FetchingPage 2])"
    by (simp add: scripted_def fetch_step_def)
  have "fetchAllFiles_loop ?ep enum_init = fetchAllFiles_loop ?ep ?st1"
    by (rule loop_go [where ep = ?ep and st = enum_init, OF _ s1]) (simp add: enum_init_def)
  also have "\<dots> = Some (Inl (NetworkError ''ECONNRESET'', [FetchingPage 1, FetchingPage 2]))"
    by (rule loop_throw [where ep = ?ep and st = ?st1, OF _ s2]) simp
  finally show ?thesis .
qed

text \<open>
  Claim C1, as the source has it. Take a script of pages in which every page before the
  last reports \<open>hasNextPage = true\<close> and has at least one edge, and the last page
  reports \<open>hasNextPage = false\<close>, and an endpoint that answers the \<open>n\<close>-th request
  with the \<open>n\<close>-th page. Then \<open>fetchAllFiles\<close> returns; it has made exactly one
  request per page of the script (the page counter ends one past the length, and the
  console holds one line per page), and the result is the nodes of all pages' edges,
  concatenated in page order.
\<close>

theorem fetchAllFiles_scripted:
  assumes "ps \<noteq> []"
    and "\<forall>i<length ps. \<forall>c. delivers (ep (Suc i) c) (ps ! i)"
    and "\<forall>i<length ps - 1. pageInfo_hasNextPage (ps ! i) \<and> nodes_of (ps ! i) \<noteq> []"
    and "\<not> pageInfo_hasNextPage (last ps)"
  shows "\<exists>st. fetchAllFiles_loop ep enum_init = Some (Inr st) \<and>
              page st = length ps + 1 \<and>
              console st = map FetchingPage [1 ..< length ps + 1] \<and>
              allFiles st = concat (map nodes_of ps) \<and>
              fetchAllFiles ep =
                Some (Inr (concat (map nodes_of ps), map FetchingPage [1 ..< length ps + 1]))"
proof -
  have d: "\<forall>i<length ps. \<forall>c. delivers (ep (page enum_init + i) c) (ps ! i)"
    using assms(2) by (simp add: enum_init_def)
  have h: "hasNextPage enum_init" by (simp add: enum_init_def)
  obtain st where st: "fetchAllFiles_loop ep enum_init = Some (Inr st)"
      "page st = page enum_init + length ps"
      "allFiles st = allFiles enum_init @ concat (map nodes_of ps)"
      "console st = console enum_init @
         map FetchingPage [page enum_init ..< page enum_init + length ps]"
    using loop_script [OF assms(1) d assms(3) assms(4) h] by blast
  then show ?thesis
    by (intro exI [of _ st]) (simp add: fetchAllFiles_def enum_init_def)
qed

text \<open>The script of two pages.\<close>

theorem fetchAllFiles_scripted_witness:
  "ex_pages \<noteq> [] \<and>
   \<not> pageInfo_hasNextPage (last ex_pages) \<and>
   fetchAllFiles (scripted (map page_of ex_pages)) =
     Some (Inr ([mk_node ''GenericFile'', mk_node ''MediaImage'', mk_node ''Video''],
                [FetchingPage 1, FetchingPage 2]))"
proof -
  have a1: "ex_pages \<noteq> []" by (simp add: ex_pages_def)
  have a2: "\<forall>i<length ex_pages. \<forall>c.
              delivers (scripted (map page_of ex_pages) (Suc i) c) (ex_pages ! i)"
    by (simp add: scripted_def delivers_page_of)
  have a3: "\<forall>i<length ex_pages - 1.
              pageInfo_hasNextPage (ex_pages ! i) \<and> nodes_of (ex_pages ! i) \<noteq> []"
    by (simp add: ex_pages_def nodes_of_def)
  have a4: "\<not> pageInfo_hasNextPage (last ex_pages)" by (simp add: ex_pages_def)
  have n: "concat (map nodes_of ex_pages) =
             [mk_node ''GenericFile'', mk_node ''MediaImage'', mk_node ''Video'']"
    by (simp add: ex_pages_def nodes_of_def ex_edge_def)
  have u: "map FetchingPage [1 ..< length ex_pages + 1] = [FetchingPage 1, FetchingPage 2]"
    by (simp add: ex_pages_def upt_rec)
  show ?thesis
    using fetchAllFiles_scripted [OF a1 a2 a3 a4] a1 a2 a3 a4 unfolding n u by blast
qed

text \<open>
  The claim as written admits every script whose last page reports no next page. When
  an earlier page reports a next page and has no edge, \<open>fetchAllFiles\<close> throws at that
  page and returns nothing.
\<close>

theorem fetchAllFiles_empty_page_counterexample:
  "\<not> pageInfo_hasNextPage (last [ex_empty_page (Some []), ex_pages ! 1]) \<and>
   fetchAllFiles (scripted (map page_of [ex_empty_page (Some []), ex_pages ! 1])) =
     Some (Inl (TypeError ''cursor'', [FetchingPage 1]))"
proof -
  have "fetch_step (page_of (ex_empty_page (Some []))) enum_init =
          Inl (TypeError ''cursor'', [FetchingPage 1])"
    by (simp add: fetch_step_def page_of_def ex_empty_page_def enum_init_def)
  then have "fetchAllFiles_loop (scripted (map page_of [ex_empty_page (Some []), ex_pages ! 1]))
               enum_init = Some (Inl (TypeError ''cursor'', [FetchingPage 1]))"
    by (intro loop_throw) (simp_all add: enum_init_def scripted_def)
  then show ?thesis by (simp add: fetchAllFiles_def ex_pages_def)
qed

text \<open>
  Claim C4, as the source has it. After a page that passes the checks of the loop body:
  when it reports \<open>hasNextPage = true\<close> and has at least one edge, the cursor is set to
  the cursor of the last edge of the page, and the next request is sent with that
  cursor; when it reports \<open>hasNextPage = false\<close>, the cursor is set to \<open>null\<close> and the
  loop ends with the state reached.
\<close>

theorem cursor_discipline:
  assumes "delivers resp conn"
  shows "(pageInfo_hasNextPage conn \<longrightarrow>
            (\<forall>es. edges conn = Some es \<and> es \<noteq> [] \<longrightarrow>
               (\<exists>st'. fetch_step resp st = Inr st' \<and> hasNextPage st' \<and>
                  cursor st' = Some (edge_cursor (last es)) \<and>
                  fetchAllFiles_loop ep st' =
                    (case fetch_step (ep (page st') (Some (edge_cursor (last es)))) st' of
                       Inl e \<Rightarrow> Some (Inl e)
                     | Inr st'' \<Rightarrow> fetchAllFiles_loop ep st'')))) \<and>
         (\<not> pageInfo_hasNextPage conn \<longrightarrow>
            (\<exists>st'. fetch_step resp st = Inr st' \<and> \<not> hasNextPage st' \<and> cursor st' = None \<and>
               fetchAllFiles_loop ep st' = Some (Inr st')))"
proof (intro conjI impI allI)
  fix es
  assume h: "pageInfo_hasNextPage conn" and e: "edges conn = Some es \<and> es \<noteq> []"
  let ?st' = "\<lparr>allFiles = allFiles st @ map edge_node es, hasNextPage = True,
                cursor = Some (edge_cursor (last es)), page = page st + 1,
                console = console st @ [FetchingPage (page st)]\<rparr>"
  have s: "fetch_step resp st = Inr ?st'"
    using fetch_step_more [OF assms h] e by blast
  have l: "fetchAllFiles_loop ep ?st' =
             (case fetch_step (ep (page ?st') (Some (edge_cursor (last es)))) ?st' of
                Inl e \<Rightarrow> Some (Inl e)
              | Inr st'' \<Rightarrow> fetchAllFiles_loop ep st'')"
    by (subst fetchAllFiles_loop.simps) simp
  show "\<exists>st'. fetch_step resp st = Inr st' \<and> hasNextPage st' \<and>
          cursor st' = Some (edge_cursor (last es)) \<and>
          fetchAllFiles_loop ep st' =
            (case fetch_step (ep (page st') (Some (edge_cursor (last es)))) st' of
               Inl e \<Rightarrow> Some (Inl e)
             | Inr st'' \<Rightarrow> fetchAllFiles_loop ep st'')"
    using s l by (intro exI [of _ ?st']) simp
next
  assume h: "\<not> pageInfo_hasNextPage conn"
  let ?st' = "\<lparr>allFiles = allFiles st @ nodes_of conn, hasNextPage = False,
                cursor = None, page = page st + 1,
                console = console st @ [FetchingPage (page st)]\<rparr>"
  have s: "fetch_step resp st = Inr ?st'"
    using fetch_step_final [OF assms h] .
  have l: "fetchAllFiles_loop ep ?st' = Some (Inr ?st')"
    by (rule loop_stop) simp
  show "\<exists>st'. fetch_step resp st = Inr st' \<and> \<not> hasNextPage st' \<and> cursor st' = None \<and>
          fetchAllFiles_loop ep st' = Some (Inr st')"
    using s l by (intro exI [of _ ?st']) simp
qed

text \<open>The two pages of the script, each from the initial state.\<close>

theorem cursor_discipline_witness:
  "delivers (page_of (ex_pages ! 0)) (ex_pages ! 0) \<and>
   pageInfo_hasNextPage (ex_pages ! 0) \<and>
   (\<exists>st'. fetch_step (page_of (ex_pages ! 0)) enum_init = Inr st' \<and> cursor st' = Some ''c2'') \<and>
   delivers (page_of (ex_pages ! 1)) (ex_pages ! 1) \<and>
   \<not> pageInfo_hasNextPage (ex_pages ! 1) \<and>
   (\<exists>st'. fetch_step (page_of (ex_pages ! 1)) enum_init = Inr st' \<and> cursor st' = None \<and>
      fetchAllFiles_loop (scripted []) st' = Some (Inr st'))"
proof -
  have e0: "edges (ex_pages ! 0) = Some [ex_edge ''c1'' ''GenericFile'', ex_edge ''c2'' ''MediaImage'']
            \<and> [ex_edge ''c1'' ''GenericFile'', ex_edge ''c2'' ''MediaImage''] \<noteq> []"
    by (simp add: ex_pages_def)
  have h0: "pageInfo_hasNextPage (ex_pages ! 0)" by (simp add: ex_pages_def)
  have h1: "\<not> pageInfo_hasNextPage (ex_pages ! 1)" by (simp add: ex_pages_def)
  have c: "edge_cursor (last [ex_edge ''c1'' ''GenericFile'', ex_edge ''c2'' ''MediaImage'']) = ''c2''"
    by (simp add: ex_edge_def)
  show ?thesis
    using cursor_discipline [OF delivers_page_of, of "ex_pages ! 0" enum_init "scripted []"]
          cursor_discipline [OF delivers_page_of, of "ex_pages ! 1" enum_init "scripted []"]
          e0 h0 h1 delivers_page_of c
    by (metis (no_types, lifting))
qed

text \<open>
  The claim as written speaks of every fetched page that reports \<open>hasNextPage = true\<close>.
  A page that does so without any edge passes the checks, and the iteration throws
  instead of setting a cursor: there is no state after it.
\<close>

theorem cursor_discipline_empty_page_counterexample:
  "delivers (page_of (ex_empty_page (Some []))) (ex_empty_page (Some [])) \<and>
   pageInfo_hasNextPage (ex_empty_page (Some [])) \<and>
   fetch_step (page_of (ex_empty_page (Some []))) enum_init =
     Inl (TypeError ''cursor'', [FetchingPage 1]) \<and>
   \<not> (\<exists>st'. fetch_step (page_of (ex_empty_page (Some []))) enum_init = Inr st')"
proof -
  have a: "fetch_step (page_of (ex_empty_page (Some []))) enum_init =
             Inl (TypeError ''cursor'', [FetchingPage 1])"
    by (simp add: fetch_step_def page_of_def ex_empty_page_def enum_init_def)
  have b: "pageInfo_hasNextPage (ex_empty_page (Some []))"
    by (simp add: ex_empty_page_def)
  show ?thesis using a b delivers_page_of by simp
qed

text \<open>
  Claim C10. A page that reports \<open>hasNextPage = false\<close> never makes the iteration throw,
  whatever its edges. When every page the endpoint can answer with that reports
  \<open>hasNextPage = true\<close> has at least one edge, no run of the loop ends in the
  \<open>TypeError\<close> of reading \<open>cursor\<close>. A single page that reports \<open>hasNextPage = true\<close>
  with an empty edge list, or with \<open>edges\<close> absent, makes \<open>fetchAllFiles\<close> throw that
  error.
\<close>

theorem last_edge_access:
  "(\<forall>resp conn st. delivers resp conn \<and> \<not> pageInfo_hasNextPage conn \<longrightarrow>
      (\<exists>st'. fetch_step resp st = Inr st')) \<and>
   ((\<forall>n c res d conn. ep n c = HttpResponse res \<longrightarrow> body_json res = Some d \<longrightarrow>
        files d = Some conn \<longrightarrow> pageInfo_hasNextPage conn \<longrightarrow>
        edges conn \<noteq> None \<and> edges conn \<noteq> Some []) \<longrightarrow>
    (\<forall>st r out. fetchAllFiles_loop ep st = Some r \<longrightarrow> r \<noteq> Inl (TypeError ''cursor'', out))) \<and>
   fetchAllFiles (scripted [page_of (ex_empty_page (Some []))]) =
     Some (Inl (TypeError ''cursor'', [FetchingPage 1])) \<and>
   fetchAllFiles (scripted [page_of (ex_empty_page None)]) =
     Some (Inl (TypeError ''cursor'', [FetchingPage 1]))"
proof (intro conjI allI impI)
  fix resp conn st
  assume "delivers resp conn \<and> \<not> pageInfo_hasNextPage conn"
  then show "\<exists>st'. fetch_step resp st = Inr st'"
    using fetch_step_final [of resp conn st] by simp
next
  fix st r out
  assume "\<forall>n c res d conn. ep n c = HttpResponse res \<longrightarrow> body_json res = Some d \<longrightarrow>
        files d = Some conn \<longrightarrow> pageInfo_hasNextPage conn \<longrightarrow>
        edges conn \<noteq> None \<and> edges conn \<noteq> Some []"
    and "fetchAllFiles_loop ep st = Some r"
  then show "r \<noteq> Inl (TypeError ''cursor'', out)"
    by (rule loop_no_cursor_error)
next
  have "fetch_step (page_of (ex_empty_page (Some []))) enum_init =
          Inl (TypeError ''cursor'', [FetchingPage 1])"
    by (simp add: fetch_step_def page_of_def ex_empty_page_def enum_init_def)
  then have "fetchAllFiles_loop (scripted [page_of (ex_empty_page (Some []))]) enum_init =
               Some (Inl (TypeError ''cursor'', [FetchingPage 1]))"
    by (intro loop_throw) (simp_all add: enum_init_def scripted_def)
  then show "fetchAllFiles (scripted [page_of (ex_empty_page (Some []))]) =
               Some (Inl (TypeError ''cursor'', [FetchingPage 1]))"
    by (simp add: fetchAllFiles_def)
next
  have "fetch_step (page_of (ex_empty_page None)) enum_init =
          Inl (TypeError ''cursor'', [FetchingPage 1])"
    by (simp add: fetch_step_def page_of_def ex_empty_page_def enum_init_def)
  then have "fetchAllFiles_loop (scripted [page_of (ex_empty_page None)]) enum_init =
               Some (Inl (TypeError ''cursor'', [FetchingPage 1]))"
    by (intro loop_throw) (simp_all add: enum_init_def scripted_def)
  then show "fetchAllFiles (scripted [page_of (ex_empty_page None)]) =
               Some (Inl (TypeError ''cursor'', [FetchingPage 1]))"
    by (simp add: fetchAllFiles_def)
qed

text \<open>
  The last page of the script, and an endpoint that answers one good page and then
  drops the connection: the run ends in the network error.
\<close>

theorem last_edge_access_witness:
  "delivers (page_of (ex_pages ! 1)) (ex_pages ! 1) \<and> \<not> pageInfo_hasNextPage (ex_pages ! 1) \<and>
   (\<exists>st'. fetch_step (page_of (ex_pages ! 1)) enum_init = Inr st') \<and>
   fetchAllFiles_loop (scripted [page_of (ex_pages ! 0), FetchRejected ''ECONNRESET'']) enum_init =
     Some (Inl (NetworkError ''ECONNRESET'', [FetchingPage 1, FetchingPage 2])) \<and>
   Inl (NetworkError ''ECONNRESET'', [FetchingPage 1, FetchingPage 2]) \<noteq>
     (Inl (TypeError ''cursor'', [FetchingPage 1, FetchingPage 2]) :: (js_error \<times> event list) + enum_state)"
proof -
  let ?ep = "scripted [page_of (ex_pages ! 0), FetchRejected ''ECONNRESET'']"
  have d: "delivers (page_of (ex_pages ! 1)) (ex_pages ! 1) \<and> \<not> pageInfo_hasNextPage (ex_pages ! 1)"
    by (simp add: delivers_page_of) (simp add: ex_pages_def)
  have p: "\<forall>n c res d conn. ?ep n c = HttpResponse res \<longrightarrow>
        body_json res = Some d \<longrightarrow>
        files d = Some conn \<longrightarrow> pageInfo_hasNextPage conn \<longrightarrow>
        edges conn \<noteq> None \<and> edges conn \<noteq> Some []"
    by (auto dest!: scripted_in_set simp: page_of_def ex_pages_def)
  show ?thesis
    using last_edge_access [of ?ep] d p loop_reject_after_first_page by blast
qed

section \<open>Classification\<close>

text \<open>
  Claim C3, as the source has it. \<open>resolveFileInfo\<close> is a total function of the node.
  Each of the five type names the \<open>switch\<close> matches gives its folder and the URL of its
  own field: \<open>GenericFile\<close> gives \<open>generic\<close> and \<open>url\<close>, \<open>MediaImage\<close> gives \<open>images\<close>
  and \<open>image?.url\<close>, \<open>Video\<close> gives \<open>videos\<close> and \<open>originalSource?.url\<close>,
  \<open>ExternalVideo\<close> gives \<open>external\<close> and \<open>embeddedUrl\<close>, and \<open>Model3d\<close> (in this
  spelling) gives \<open>models\<close> and \<open>originalSource?.url\<close>. Every other type name gives
  the folder \<open>unknown\<close> and no URL.
\<close>

theorem resolveFileInfo_classification:
  "(typename f = ''GenericFile'' \<longrightarrow> resolveFileInfo f = (url f, ''generic'')) \<and>
   (typename f = ''MediaImage'' \<longrightarrow> resolveFileInfo f = (opt_url (image f), ''images'')) \<and>
   (typename f = ''Video'' \<longrightarrow> resolveFileInfo f = (opt_url (originalSource f), ''videos'')) \<and>
   (typename f = ''ExternalVideo'' \<longrightarrow> resolveFileInfo f = (embeddedUrl f, ''external'')) \<and>
   (typename f = ''Model3d'' \<longrightarrow> resolveFileInfo f = (opt_url (originalSource f), ''models'')) \<and>
   (typename f \<notin> {''GenericFile'', ''MediaImage'', ''Video'', ''ExternalVideo'', ''Model3d''} \<longrightarrow>
      resolveFileInfo f = (None, ''unknown''))"
  by (simp add: resolveFileInfo_def)

text \<open>The six cases at the example node.\<close>

theorem resolveFileInfo_classification_witness:
  "resolveFileInfo (mk_node ''GenericFile'') = (Some ''https://cdn.example.com/a.zip'', ''generic'') \<and>
   resolveFileInfo (mk_node ''MediaImage'') = (Some ''https://cdn.example.com/i.png'', ''images'') \<and>
   resolveFileInfo (mk_node ''Video'') = (Some ''https://cdn.example.com/o.mp4'', ''videos'') \<and>
   resolveFileInfo (mk_node ''ExternalVideo'') = (Some ''https://x/y.mp4'', ''external'') \<and>
   resolveFileInfo (mk_node ''Model3d'') = (Some ''https://cdn.example.com/o.mp4'', ''models'') \<and>
   resolveFileInfo (mk_node ''Collection'') = (None, ''unknown'')"
  using resolveFileInfo_classification [of "mk_node ''GenericFile''"]
        resolveFileInfo_classification [of "mk_node ''MediaImage''"]
        resolveFileInfo_classification [of "mk_node ''Video''"]
        resolveFileInfo_classification [of "mk_node ''ExternalVideo''"]
        resolveFileInfo_classification [of "mk_node ''Model3d''"]
        resolveFileInfo_classification [of "mk_node ''Collection''"]
  by (simp add: mk_node_def opt_url_def)

text \<open>
  The claim as written names the fifth kind \<open>Model3D\<close>. A node of that type name, with
  its \<open>originalSource.url\<close> present, is classified as \<open>unknown\<close> with no URL: the
  \<open>switch\<close> compares with the string \<open>Model3d\<close>.
\<close>

theorem resolveFileInfo_Model3D_counterexample:
  "resolveFileInfo (mk_node ''Model3D'') = (None, ''unknown'') \<and>
   originalSource (mk_node ''Model3D'') = Some \<lparr>media_url = Some ''https://cdn.example.com/o.mp4''\<rparr>"
  by (simp add: mk_node_def resolveFileInfo_def)

section \<open>The local file name\<close>

lemma split_on_not_Nil: "split_on c s \<noteq> []"
  by (induction s) (auto simp: Let_def)

lemma hd_split_on: "hd (split_on c s) = takeWhile (\<lambda>x. x \<noteq> c) s"
  by (induction s) (auto simp: Let_def)

lemma split_on_absent: "c \<notin> set s \<Longrightarrow> split_on c s = [s]"
  by (induction s) (auto simp: Let_def)

lemma last_split_on_append: "last (split_on c (a @ c # b)) = last (split_on c b)"
proof (induction a)
  case Nil
  show ?case by (simp add: split_on_not_Nil)
next
  case (Cons x a)
  have ne: "split_on c (a @ c # b) \<noteq> []" by (rule split_on_not_Nil)
  have len: "tl (split_on c (a @ c # b)) \<noteq> []"
    by (induction a) (auto simp: split_on_not_Nil Let_def)
  show ?case
  proof (cases "x = c")
    case True
    then show ?thesis using Cons ne by (simp add: Let_def)
  next
    case False
    have "last (split_on c (a @ c # b)) = last (tl (split_on c (a @ c # b)))"
      using len ne by (metis last_tl)
    then show ?thesis using False Cons len by (simp add: Let_def)
  qed
qed

lemma last_split_on: "last (split_on c s) = rev (takeWhile (\<lambda>x. x \<noteq> c) (rev s))"
proof (cases "c \<in> set s")
  case False
  have tw: "takeWhile (\<lambda>x. x \<noteq> c) (rev s) = rev s"
    by (rule takeWhile_eq_all_conv [THEN iffD2]) (use False in auto)
  show ?thesis unfolding split_on_absent [OF False] tw by simp
next
  case True
  then obtain a b where s: "s = a @ c # b" and nb: "c \<notin> set b"
    by (meson split_list_last)
  have "takeWhile (\<lambda>x. x \<noteq> c) (rev b @ c # rev a) = rev b"
    using nb by (auto simp: takeWhile_tail)
  then show ?thesis using s nb by (simp add: last_split_on_append split_on_absent)
qed

lemma basename_no_trailing:
  assumes "p = [] \<or> last p \<noteq> CHR ''/''"
  shows "basename p = last (split_on (CHR ''/'') p)"
proof -
  have "dropWhile (\<lambda>c. c = CHR ''/'') (rev p) = rev p"
    using assms by (cases p rule: rev_cases) auto
  then show ?thesis by (simp add: basename_def last_split_on)
qed

lemma basename_general:
  "basename p = last (split_on (CHR ''/'') (rev (dropWhile (\<lambda>c. c = CHR ''/'') (rev p))))"
  by (simp add: basename_def last_split_on)

text \<open>
  Claim C9, as the source has it. The query string is cut at the first \<open>?\<close>. The file
  name is the last path segment of what is left once its trailing separators are
  dropped; when what is left does not end in a separator, this is the substring after
  the final separator, as the specification says. The URL
  \<open>https://cdn.example.com/path/image.png?v=123\<close> gives \<open>image.png\<close>.
\<close>

theorem fileName_of_canonical:
  "cleanUrl u = takeWhile (\<lambda>c. c \<noteq> CHR ''?'') u \<and>
   fileName_of u =
     last (split_on (CHR ''/'') (rev (dropWhile (\<lambda>c. c = CHR ''/'') (rev (cleanUrl u))))) \<and>
   (cleanUrl u = [] \<or> last (cleanUrl u) \<noteq> CHR ''/'' \<longrightarrow> fileName_of u = spec_fileName u) \<and>
   fileName_of ''https://cdn.example.com/path/image.png?v=123'' = ''image.png''"
proof (intro conjI impI)
  show c: "cleanUrl u = takeWhile (\<lambda>c. c \<noteq> CHR ''?'') u"
    by (simp add: cleanUrl_def hd_split_on)
  show "fileName_of u =
     last (split_on (CHR ''/'') (rev (dropWhile (\<lambda>c. c = CHR ''/'') (rev (cleanUrl u)))))"
    unfolding fileName_of_def by (rule basename_general)
  show "fileName_of u = spec_fileName u" if "cleanUrl u = [] \<or> last (cleanUrl u) \<noteq> CHR ''/''"
    using basename_no_trailing [OF that] c by (simp add: fileName_of_def spec_fileName_def)
  show "fileName_of ''https://cdn.example.com/path/image.png?v=123'' = ''image.png''"
    by code_simp
qed

text \<open>A URL that satisfies the side condition.\<close>

theorem fileName_of_canonical_witness:
  "(cleanUrl ''https://x/y.mp4?a=1'' = [] \<or> last (cleanUrl ''https://x/y.mp4?a=1'') \<noteq> CHR ''/'') \<and>
   fileName_of ''https://x/y.mp4?a=1'' = spec_fileName ''https://x/y.mp4?a=1'' \<and>
   fileName_of ''https://x/y.mp4?a=1'' = ''y.mp4''"
proof -
  have h: "cleanUrl ''https://x/y.mp4?a=1'' = [] \<or> last (cleanUrl ''https://x/y.mp4?a=1'') \<noteq> CHR ''/''"
    by code_simp
  have e: "fileName_of ''https://x/y.mp4?a=1'' = spec_fileName ''https://x/y.mp4?a=1''"
    using fileName_of_canonical [of "''https://x/y.mp4?a=1''"] h by blast
  have v: "fileName_of ''https://x/y.mp4?a=1'' = ''y.mp4''"
    by code_simp
  show ?thesis using h e v by blast
qed

text \<open>
  The claim as written takes the substring after the final separator for every URL. On
  a URL whose path ends in a separator that substring is empty, and the source names
  the file after the segment before it.
\<close>

theorem fileName_trailing_separator_counterexample:
  "fileName_of ''https://cdn.example.com/path/?v=123'' = ''path'' \<and>
   spec_fileName ''https://cdn.example.com/path/?v=123'' = [] \<and>
   fileName_of ''https://cdn.example.com/path/?v=123'' \<noteq>
     spec_fileName ''https://cdn.example.com/path/?v=123''"
  by code_simp

section \<open>The pipeline\<close>

subsection \<open>One iteration\<close>

lemma step_no_url:
  "\<not> has_url f \<Longrightarrow>
   download_step env n f st =
     st\<lparr>dl_console := dl_console st @ [SkippedNoUrl (node_id f) (typename f)]\<rparr>"
  by (cases "resolveFileInfo f") (simp add: download_step_def has_url_def)

lemma step_exists:
  "has_url f \<Longrightarrow> existsSync (fs st) (target env f) \<Longrightarrow>
   download_step env n f st =
     st\<lparr>downloaded := downloaded st + 1,
        dl_console := dl_console st @
          [SkippedExisting (downloaded st + 1) n (snd (resolveFileInfo f)) (fileName_of (url_of f))]\<rparr>"
  by (cases "resolveFileInfo f")
     (simp add: download_step_def has_url_def target_def url_of_def Let_def)

lemma step_fetch:
  "has_url f \<Longrightarrow> \<not> existsSync (fs st) (target env f) \<Longrightarrow>
   download_step env n f st =
     (case try_download env n (snd (resolveFileInfo f)) (fileName_of (url_of f)) (target env f)
             (st\<lparr>fetched := fetched st @ [url_of f]\<rparr>) of
        Inl msg \<Rightarrow> st\<lparr>fetched := fetched st @ [url_of f],
                      dl_console := dl_console st @ [ErrorDownloading (url_of f) msg]\<rparr>
      | Inr st' \<Rightarrow> st')"
  by (cases "resolveFileInfo f")
     (simp add: download_step_def has_url_def target_def url_of_def Let_def split: sum.splits)

lemma try_download_ok:
  "fetch_and_write_ok env f st \<Longrightarrow>
   \<exists>b. try_download env n folder name (target env f) (st\<lparr>fetched := fetched st @ [url_of f]\<rparr>) =
     Inr (st\<lparr>fetched := fetched st @ [url_of f],
             fs := (fs st)(target env f \<mapsto> File b),
             downloaded := downloaded st + 1,
             dl_console := dl_console st @ [Saved (downloaded st + 1) n folder name]\<rparr>)"
  by (auto simp: fetch_and_write_ok_def try_download_def
           split: content_fetch.splits sum.splits option.splits)

lemma try_download_fail:
  "\<not> fetch_and_write_ok env f st \<Longrightarrow>
   (\<exists>msg. try_download env n folder name (target env f) (st\<lparr>fetched := fetched st @ [url_of f]\<rparr>) =
      Inl msg) \<or>
   (\<exists>s. try_download env n folder name (target env f) (st\<lparr>fetched := fetched st @ [url_of f]\<rparr>) =
      Inr (st\<lparr>fetched := fetched st @ [url_of f],
              dl_console := dl_console st @ [FailedDownload name s]\<rparr>))"
  by (auto simp: fetch_and_write_ok_def try_download_def
           split: content_fetch.splits sum.splits option.splits)

lemma step_saved:
  assumes "has_url f" "\<not> existsSync (fs st) (target env f)" "fetch_and_write_ok env f st"
  shows "\<exists>b. download_step env n f st =
     st\<lparr>fetched := fetched st @ [url_of f],
        fs := (fs st)(target env f \<mapsto> File b),
        downloaded := downloaded st + 1,
        dl_console := dl_console st @
          [Saved (downloaded st + 1) n (snd (resolveFileInfo f)) (fileName_of (url_of f))]\<rparr>"
proof -
  obtain b where "try_download env n (snd (resolveFileInfo f)) (fileName_of (url_of f))
       (target env f) (st\<lparr>fetched := fetched st @ [url_of f]\<rparr>) =
     Inr (st\<lparr>fetched := fetched st @ [url_of f],
             fs := (fs st)(target env f \<mapsto> File b),
             downloaded := downloaded st + 1,
             dl_console := dl_console st @
               [Saved (downloaded st + 1) n (snd (resolveFileInfo f)) (fileName_of (url_of f))]\<rparr>)"
    using try_download_ok [OF assms(3)] by blast
  then show ?thesis using step_fetch [OF assms(1,2), of n] by auto
qed

lemma step_fetch_failed:
  assumes "has_url f" "\<not> existsSync (fs st) (target env f)" "\<not> fetch_and_write_ok env f st"
  shows "\<exists>ev. is_diagnostic ev \<and> download_step env n f st =
     st\<lparr>fetched := fetched st @ [url_of f], dl_console := dl_console st @ [ev]\<rparr>"
proof -
  let ?t = "try_download env n (snd (resolveFileInfo f)) (fileName_of (url_of f))
       (target env f) (st\<lparr>fetched := fetched st @ [url_of f]\<rparr>)"
  have "(\<exists>msg. ?t = Inl msg) \<or>
        (\<exists>s. ?t = Inr (st\<lparr>fetched := fetched st @ [url_of f],
              dl_console := dl_console st @ [FailedDownload (fileName_of (url_of f)) s]\<rparr>))"
    using try_download_fail [OF assms(3)] by blast
  then show ?thesis
  proof
    assume "\<exists>msg. ?t = Inl msg"
    then obtain msg where "?t = Inl msg" by blast
    then have "download_step env n f st =
      st\<lparr>fetched := fetched st @ [url_of f],
         dl_console := dl_console st @ [ErrorDownloading (url_of f) msg]\<rparr>"
      using step_fetch [OF assms(1,2), of n] by simp
    then show ?thesis by (intro exI [of _ "ErrorDownloading (url_of f) msg"]) (simp add: is_diagnostic_def)
  next
    assume "\<exists>s. ?t = Inr (st\<lparr>fetched := fetched st @ [url_of f],
              dl_console := dl_console st @ [FailedDownload (fileName_of (url_of f)) s]\<rparr>)"
    then obtain s where "?t = Inr (st\<lparr>fetched := fetched st @ [url_of f],
              dl_console := dl_console st @ [FailedDownload (fileName_of (url_of f)) s]\<rparr>)" by blast
    then have "download_step env n f st =
      st\<lparr>fetched := fetched st @ [url_of f],
         dl_console := dl_console st @ [FailedDownload (fileName_of (url_of f)) s]\<rparr>"
      using step_fetch [OF assms(1,2), of n] by simp
    then show ?thesis
      by (intro exI [of _ "FailedDownload (fileName_of (url_of f)) s"]) (simp add: is_diagnostic_def)
  qed
qed

text \<open>The four outcomes of one iteration.\<close>

lemma step_cases:
  obtains
    (no_url) "\<not> has_url f"
      "download_step env n f st =
         st\<lparr>dl_console := dl_console st @ [SkippedNoUrl (node_id f) (typename f)]\<rparr>"
  | (present) "has_url f" "existsSync (fs st) (target env f)"
      "download_step env n f st =
         st\<lparr>downloaded := downloaded st + 1,
            dl_console := dl_console st @
              [SkippedExisting (downloaded st + 1) n (snd (resolveFileInfo f))
                 (fileName_of (url_of f))]\<rparr>"
  | (saved) b where "has_url f" "\<not> existsSync (fs st) (target env f)" "fetch_and_write_ok env f st"
      "download_step env n f st =
         st\<lparr>fetched := fetched st @ [url_of f],
            fs := (fs st)(target env f \<mapsto> File b),
            downloaded := downloaded st + 1,
            dl_console := dl_console st @
              [Saved (downloaded st + 1) n (snd (resolveFileInfo f)) (fileName_of (url_of f))]\<rparr>"
  | (failed) ev where "has_url f" "\<not> existsSync (fs st) (target env f)"
      "\<not> fetch_and_write_ok env f st" "is_diagnostic ev"
      "download_step env n f st =
         st\<lparr>fetched := fetched st @ [url_of f], dl_console := dl_console st @ [ev]\<rparr>"
proof (cases "has_url f")
  case False
  then show ?thesis using no_url step_no_url by blast
next
  case u: True
  show ?thesis
  proof (cases "existsSync (fs st) (target env f)")
    case True
    then show ?thesis using present u step_exists by blast
  next
    case ne: False
    show ?thesis
    proof (cases "fetch_and_write_ok env f st")
      case True
      then show ?thesis using saved u ne step_saved by blast
    next
      case False
      then show ?thesis using failed u ne step_fetch_failed by blast
    qed
  qed
qed

lemma step_frame: "existsSync (fs st) p \<Longrightarrow> fs (download_step env n f st) p = fs st p"
  by (cases rule: step_cases [where f = f and env = env and n = n and st = st]) (auto simp: existsSync_def)

lemma step_exists_mono:
  "existsSync (fs st) p \<Longrightarrow> existsSync (fs (download_step env n f st)) p"
  using step_frame [of st p env n f] by (simp add: existsSync_def)

lemma step_write_only_absent:
  "fs (download_step env n f st) = fs st \<or>
   (\<exists>b. has_url f \<and> \<not> existsSync (fs st) (target env f) \<and>
        fs (download_step env n f st) = (fs st)(target env f \<mapsto> File b))"
  by (cases rule: step_cases [where f = f and env = env and n = n and st = st]) auto

lemma step_downloaded:
  "downloaded (download_step env n f st) = downloaded st + (if counted env f st then 1 else 0)"
  by (cases rule: step_cases [where f = f and env = env and n = n and st = st]) (auto simp: counted_def)

lemma step_failed:
  "\<not> counted env f st \<Longrightarrow>
   \<exists>ev. is_diagnostic ev \<and>
     download_step env n f st =
       st\<lparr>fetched := fetched (download_step env n f st), dl_console := dl_console st @ [ev]\<rparr>"
proof (cases rule: step_cases [where f = f and env = env and n = n and st = st])
  case no_url
  then show ?thesis
    by (intro exI [of _ "SkippedNoUrl (node_id f) (typename f)"]) (simp add: is_diagnostic_def)
next
  case present
  assume "\<not> counted env f st"
  then show ?thesis using present by (simp add: counted_def)
next
  case (saved b)
  assume "\<not> counted env f st"
  then show ?thesis using saved by (simp add: counted_def)
next
  case (failed ev)
  then show ?thesis by (intro exI [of _ ev]) simp
qed

lemma step_console:
  "\<exists>ev. dl_console (download_step env n f st) = dl_console st @ [ev] \<and>
        (event_total ev = None \<or> event_total ev = Some n)"
proof (cases rule: step_cases [where f = f and env = env and n = n and st = st])
  case (failed ev)
  then show ?thesis
    by (intro exI [of _ ev]) (auto simp: is_diagnostic_def event_total_def split: event.splits)
qed (auto simp: event_total_def)

lemma step_counted_exists:
  "counted env f st \<Longrightarrow> existsSync (fs (download_step env n f st)) (target env f)"
  by (cases rule: step_cases [where f = f and env = env and n = n and st = st]) (auto simp: counted_def existsSync_def)

lemma step_present:
  "has_url f \<Longrightarrow> existsSync (fs st) (target env f) \<Longrightarrow>
   fetched (download_step env n f st) = fetched st \<and> fs (download_step env n f st) = fs st \<and>
   downloaded (download_step env n f st) = downloaded st + 1"
  by (simp add: step_exists)

lemma step_console_counts:
  "\<exists>ev. dl_console (download_step env n f st) = dl_console st @ [ev] \<and>
        (event_total ev = None \<or> event_total ev = Some n) \<and>
        (event_downloaded ev = None \<or>
         event_downloaded ev = Some (downloaded (download_step env n f st)))"
proof (cases rule: step_cases [where f = f and env = env and n = n and st = st])
  case (failed ev)
  then show ?thesis
    by (intro exI [of _ ev])
       (auto simp: is_diagnostic_def event_total_def event_downloaded_def split: event.splits)
qed (auto simp: event_total_def event_downloaded_def)

lemma step_saved_content:
  assumes "has_url f" "\<not> existsSync (fs st) (target env f)" "fetch_and_write_ok env f st"
  shows "\<exists>res buffer.
           content_network env (fetched st @ [url_of f]) = ContentResponse res \<and>
           content_ok res \<and> arrayBuffer res = Inr buffer \<and>
           write_error env (fs st) (target env f) buffer = None \<and>
           fs (download_step env n f st) = (fs st)(target env f \<mapsto> File buffer)"
proof -
  obtain res buffer where r:
      "content_network env (fetched st @ [url_of f]) = ContentResponse res"
      "content_ok res" "arrayBuffer res = Inr buffer"
      "write_error env (fs st) (target env f) buffer = None"
    using assms(3)
    by (auto simp: fetch_and_write_ok_def split: content_fetch.splits sum.splits)
  have "try_download env n (snd (resolveFileInfo f)) (fileName_of (url_of f)) (target env f)
          (st\<lparr>fetched := fetched st @ [url_of f]\<rparr>) =
        Inr (st\<lparr>fetched := fetched st @ [url_of f],
                fs := (fs st)(target env f \<mapsto> File buffer),
                downloaded := downloaded st + 1,
                dl_console := dl_console st @
                  [Saved (downloaded st + 1) n (snd (resolveFileInfo f))
                     (fileName_of (url_of f))]\<rparr>)"
    using r by (simp add: try_download_def)
  then have "fs (download_step env n f st) = (fs st)(target env f \<mapsto> File buffer)"
    using step_fetch [OF assms(1,2), of n] by simp
  then show ?thesis using r by blast
qed

lemma step_downloaded_fs:
  "downloaded (download_step env n f st) =
     downloaded st +
       (if has_url f \<and> existsSync (fs (download_step env n f st)) (target env f) then 1 else 0)"
  by (cases rule: step_cases [where f = f and env = env and n = n and st = st])
     (auto simp: existsSync_def)

lemma step_uncounted_fs:
  "\<not> counted env f st \<Longrightarrow>
   fs (download_step env n f st) = fs st \<and>
   downloaded (download_step env n f st) = downloaded st"
  by (cases rule: step_cases [where f = f and env = env and n = n and st = st])
     (auto simp: counted_def)

subsection \<open>The whole loop\<close>

lemma loop_append:
  "download_loop env n (xs @ ys) st = download_loop env n ys (download_loop env n xs st)"
  by (induction xs arbitrary: st) simp_all

lemma loop_frame: "existsSync (fs st) p \<Longrightarrow> fs (download_loop env n fl st) p = fs st p"
proof (induction fl arbitrary: st)
  case Nil
  show ?case by simp
next
  case (Cons f fl)
  have "fs (download_loop env n fl (download_step env n f st)) p =
        fs (download_step env n f st) p"
    using Cons.IH [OF step_exists_mono [OF Cons.prems]] .
  then show ?case using step_frame [OF Cons.prems] by simp
qed

lemma loop_exists_mono:
  "existsSync (fs st) p \<Longrightarrow> existsSync (fs (download_loop env n fl st)) p"
  using loop_frame [of st p env n fl] by (simp add: existsSync_def)

lemma counted_has_url: "counted env f st \<Longrightarrow> has_url f"
  by (simp add: counted_def)

lemma loop_downloaded_le:
  "downloaded (download_loop env n fl st) \<le> downloaded st + length (filter has_url fl)"
proof (induction fl arbitrary: st)
  case Nil
  show ?case by simp
next
  case (Cons f fl)
  have "downloaded (download_step env n f st) \<le> downloaded st + (if has_url f then 1 else 0)"
    using step_downloaded [of env n f st] counted_has_url [of env f st] by auto
  then show ?case using Cons.IH [of "download_step env n f st"] by auto
qed

lemma loop_downloaded_le_length:
  "downloaded (download_loop env n fl st) \<le> downloaded st + length fl"
proof -
  have "length (filter has_url fl) \<le> length fl" by simp
  then show ?thesis using loop_downloaded_le [of env n fl st] by linarith
qed

lemma loop_console:
  "\<exists>evs. length evs = length fl \<and>
     dl_console (download_loop env n fl st) = dl_console st @ evs \<and>
     (\<forall>e\<in>set evs. event_total e = None \<or> event_total e = Some n)"
proof (induction fl arbitrary: st)
  case Nil
  show ?case by simp
next
  case (Cons f fl)
  obtain ev where ev: "dl_console (download_step env n f st) = dl_console st @ [ev]"
      "event_total ev = None \<or> event_total ev = Some n"
    using step_console by blast
  obtain evs where evs: "length evs = length fl"
      "dl_console (download_loop env n fl (download_step env n f st)) =
         dl_console (download_step env n f st) @ evs"
      "\<forall>e\<in>set evs. event_total e = None \<or> event_total e = Some n"
    using Cons.IH by blast
  show ?case
    using ev evs by (intro exI [of _ "ev # evs"]) auto
qed

lemma loop_all_counted:
  "downloaded (download_loop env n fl st) = downloaded st + length (filter has_url fl) \<Longrightarrow>
   f \<in> set fl \<Longrightarrow> has_url f \<Longrightarrow>
   existsSync (fs (download_loop env n fl st)) (target env f)"
proof (induction fl arbitrary: st)
  case Nil
  then show ?case by simp
next
  case (Cons g fl)
  let ?st = "download_step env n g st"
  have le: "downloaded (download_loop env n fl ?st) \<le> downloaded ?st + length (filter has_url fl)"
    by (rule loop_downloaded_le)
  have sd: "downloaded ?st = downloaded st + (if counted env g st then 1 else 0)"
    by (rule step_downloaded)
  have eq: "downloaded (download_loop env n fl ?st) =
              downloaded st + length (filter has_url (g # fl))"
    using Cons.prems(1) by simp
  have cu: "counted env g st \<Longrightarrow> has_url g" by (rule counted_has_url)
  have rest: "downloaded (download_loop env n fl ?st) = downloaded ?st + length (filter has_url fl)"
    using le sd eq cu by (auto split: if_splits)
  have cg: "has_url g \<Longrightarrow> counted env g st"
    using le sd eq by (auto split: if_splits)
  show ?case
  proof (cases "f \<in> set fl")
    case True
    then show ?thesis using Cons.IH [OF rest True Cons.prems(3)] by simp
  next
    case False
    then have "f = g" using Cons.prems(2) by simp
    then have "existsSync (fs ?st) (target env f)"
      using cg Cons.prems(3) step_counted_exists by blast
    then show ?thesis using loop_exists_mono by simp
  qed
qed

lemma target_cong:
  "OUTPUT_DIR env' = OUTPUT_DIR env \<Longrightarrow> path_join env' = path_join env \<Longrightarrow>
   target env' f = target env f"
  by (simp add: target_def filePath_of_def)

lemma loop_all_present:
  "(\<And>f. f \<in> set fl \<Longrightarrow> has_url f \<Longrightarrow> existsSync (fs st) (target env f)) \<Longrightarrow>
   fetched (download_loop env n fl st) = fetched st \<and>
   fs (download_loop env n fl st) = fs st \<and>
   downloaded (download_loop env n fl st) = downloaded st + length (filter has_url fl)"
proof (induction fl arbitrary: st)
  case Nil
  show ?case by simp
next
  case (Cons g fl)
  let ?st = "download_step env n g st"
  have s: "fetched ?st = fetched st \<and> fs ?st = fs st \<and>
           downloaded ?st = downloaded st + (if has_url g then 1 else 0)"
  proof (cases "has_url g")
    case True
    then show ?thesis using step_present [OF True Cons.prems [OF _ True]] by simp
  next
    case False
    then show ?thesis by (simp add: step_no_url)
  qed
  have "\<And>f. f \<in> set fl \<Longrightarrow> has_url f \<Longrightarrow> existsSync (fs ?st) (target env f)"
    using Cons.prems s by simp
  then have "fetched (download_loop env n fl ?st) = fetched ?st \<and>
     fs (download_loop env n fl ?st) = fs ?st \<and>
     downloaded (download_loop env n fl ?st) = downloaded ?st + length (filter has_url fl)"
    by (rule Cons.IH)
  then show ?case using s by simp
qed

lemma loop_snoc:
  "download_loop env n (pre @ [f]) st = download_step env n f (download_loop env n pre st)"
  by (simp add: loop_append)

lemma loop_count:
  "downloaded (download_loop env n fl st) =
     downloaded st +
       length (filter (\<lambda>i. counted env (fl ! i) (download_loop env n (take i fl) st))
                 [0 ..< length fl])"
proof (induction fl rule: rev_induct)
  case Nil
  show ?case by simp
next
  case (snoc x xs)
  have same: "filter (\<lambda>i. counted env ((xs @ [x]) ! i)
                             (download_loop env n (take i (xs @ [x])) st)) [0 ..< length xs] =
              filter (\<lambda>i. counted env (xs ! i) (download_loop env n (take i xs) st))
                [0 ..< length xs]"
    by (rule filter_cong) (auto simp: nth_append)
  have "downloaded (download_loop env n (xs @ [x]) st) =
          downloaded (download_loop env n xs st) +
            (if counted env x (download_loop env n xs st) then 1 else 0)"
    by (simp add: loop_snoc step_downloaded)
  then show ?case using snoc.IH same by simp
qed

lemma downloadFiles_fields:
  "downloaded (downloadFiles env fls fs0) =
     downloaded (download_loop env (length fls) fls (dl_init fs0))"
  "fs (downloadFiles env fls fs0) = fs (download_loop env (length fls) fls (dl_init fs0))"
  "fetched (downloadFiles env fls fs0) =
     fetched (download_loop env (length fls) fls (dl_init fs0))"
  "dl_console (downloadFiles env fls fs0) =
     dl_console (download_loop env (length fls) fls (dl_init fs0)) @
       [AllProcessed (downloaded (download_loop env (length fls) fls (dl_init fs0))) (length fls)]"
  by (simp_all add: downloadFiles_def Let_def)

text \<open>
  Claim C8. Whatever exists in the file system when \<open>downloadFiles\<close> starts is there
  unchanged when it ends: nothing is overwritten or deleted. An iteration either leaves
  the file system as it is or writes one file, at the target path of its record, which
  did not exist when the iteration checked.
\<close>

theorem downloadFiles_frame:
  "(\<forall>p. existsSync fs0 p \<longrightarrow> fs (downloadFiles env fls fs0) p = fs0 p) \<and>
   (\<forall>n f st. fs (download_step env n f st) = fs st \<or>
      (\<exists>b. has_url f \<and> \<not> existsSync (fs st) (target env f) \<and>
           fs (download_step env n f st) = (fs st)(target env f \<mapsto> File b)))"
proof (intro conjI allI impI)
  fix p assume "existsSync fs0 p"
  then have "existsSync (fs (dl_init fs0)) p" by (simp add: dl_init_def)
  then have "fs (download_loop env (length fls) fls (dl_init fs0)) p = fs (dl_init fs0) p"
    by (rule loop_frame)
  then show "fs (downloadFiles env fls fs0) p = fs0 p"
    by (simp add: downloadFiles_fields dl_init_def)
next
  fix n f st
  show "fs (download_step env n f st) = fs st \<or>
      (\<exists>b. has_url f \<and> \<not> existsSync (fs st) (target env f) \<and>
           fs (download_step env n f st) = (fs st)(target env f \<mapsto> File b))"
    by (rule step_write_only_absent)
qed

text \<open>A file that is there before the run, at the target path of a record of the run.\<close>

theorem downloadFiles_frame_witness:
  "existsSync ex_fs1 ''out/generic/a.zip'' \<and>
   fs (downloadFiles ex_env ex_files ex_fs1) ''out/generic/a.zip'' = Some (File ''OLD'')"
proof -
  have e: "existsSync ex_fs1 ''out/generic/a.zip''"
    by (simp add: existsSync_def ex_fs1_def)
  have "fs (downloadFiles ex_env ex_files ex_fs1) ''out/generic/a.zip'' =
          ex_fs1 ''out/generic/a.zip''"
    using downloadFiles_frame [of ex_fs1 ex_env ex_files] e by blast
  then show ?thesis using e by (simp add: ex_fs1_def)
qed

text \<open>
  Claim C6. \<open>downloaded\<close> starts at 0. The loop runs the iteration on every record in
  order. An iteration adds one to \<open>downloaded\<close> exactly when its record is already at
  its target path or is fetched and written, and nothing otherwise: the counter grows
  by one exactly when the record has a URL and its target path exists after the
  iteration; a record counted without having been there before has the fetched body
  written at its target path; an iteration that does not count leaves the file system
  as it is. The final counter is the number of records counted by their iteration.
  After any prefix of the sequence the counter is at most the number of records
  processed, hence at most the total. The total in every progress line and in the
  summary is the length of the sequence, the count in a progress line is the counter
  after its iteration, and the summary reports the final counter, which may be below
  the total.
\<close>

theorem progress_counters:
  "downloaded (dl_init fs0) = 0 \<and>
   (\<forall>pre post. fls = pre @ post \<longrightarrow>
      downloaded (download_loop env (length fls) pre (dl_init fs0)) \<le> length pre \<and>
      length pre \<le> length fls) \<and>
   (\<forall>n f st. downloaded (download_step env n f st) =
      downloaded st + (if counted env f st then 1 else 0)) \<and>
   (\<forall>e\<in>set (dl_console (downloadFiles env fls fs0)).
      event_total e = None \<or> event_total e = Some (length fls)) \<and>
   last (dl_console (downloadFiles env fls fs0)) =
     AllProcessed (downloaded (download_loop env (length fls) fls (dl_init fs0))) (length fls) \<and>
   downloaded (downloadFiles env fls fs0) =
     downloaded (download_loop env (length fls) fls (dl_init fs0)) \<and>
   downloaded (downloadFiles env fls fs0) \<le> length fls \<and>
   (\<forall>n st. download_loop env n [] st = st) \<and>
   (\<forall>n pre f st. download_loop env n (pre @ [f]) st =
      download_step env n f (download_loop env n pre st)) \<and>
   (\<forall>n f st. downloaded (download_step env n f st) =
      downloaded st +
        (if has_url f \<and> existsSync (fs (download_step env n f st)) (target env f)
         then 1 else 0)) \<and>
   (\<forall>n f st. counted env f st \<and> \<not> existsSync (fs st) (target env f) \<longrightarrow>
      (\<exists>res buffer.
         content_network env (fetched st @ [url_of f]) = ContentResponse res \<and>
         content_ok res \<and> arrayBuffer res = Inr buffer \<and>
         fs (download_step env n f st) = (fs st)(target env f \<mapsto> File buffer))) \<and>
   (\<forall>n f st. \<not> counted env f st \<longrightarrow> fs (download_step env n f st) = fs st) \<and>
   (\<forall>n f st. \<exists>ev. dl_console (download_step env n f st) = dl_console st @ [ev] \<and>
      (event_total ev = None \<or> event_total ev = Some n) \<and>
      (event_downloaded ev = None \<or>
       event_downloaded ev = Some (downloaded (download_step env n f st)))) \<and>
   downloaded (downloadFiles env fls fs0) =
     length (filter (\<lambda>i. counted env (fls ! i)
                            (download_loop env (length fls) (take i fls) (dl_init fs0)))
               [0 ..< length fls])"
proof (intro conjI allI impI ballI)
  show "downloaded (dl_init fs0) = 0" by (simp add: dl_init_def)
next
  fix pre post assume "fls = pre @ post"
  show "downloaded (download_loop env (length fls) pre (dl_init fs0)) \<le> length pre"
    using loop_downloaded_le_length [of env "length fls" pre "dl_init fs0"]
    by (simp add: dl_init_def)
next
  fix pre post :: "file_node list" assume "fls = pre @ post"
  then show "length pre \<le> length fls" by simp
next
  fix n f st
  show "downloaded (download_step env n f st) =
      downloaded st + (if counted env f st then 1 else 0)"
    by (rule step_downloaded)
next
  fix e assume e: "e \<in> set (dl_console (downloadFiles env fls fs0))"
  obtain evs where evs:
      "dl_console (download_loop env (length fls) fls (dl_init fs0)) = dl_console (dl_init fs0) @ evs"
      "\<forall>e\<in>set evs. event_total e = None \<or> event_total e = Some (length fls)"
    using loop_console by blast
  have "e \<in> set evs \<or>
        e = AllProcessed (downloaded (download_loop env (length fls) fls (dl_init fs0))) (length fls)"
    using e evs(1) by (auto simp: downloadFiles_fields dl_init_def)
  then show "event_total e = None \<or> event_total e = Some (length fls)"
    using evs(2) by (auto simp: event_total_def)
next
  show "last (dl_console (downloadFiles env fls fs0)) =
     AllProcessed (downloaded (download_loop env (length fls) fls (dl_init fs0))) (length fls)"
    by (simp add: downloadFiles_fields)
next
  show "downloaded (downloadFiles env fls fs0) =
     downloaded (download_loop env (length fls) fls (dl_init fs0))"
    by (simp add: downloadFiles_fields)
next
  show "downloaded (downloadFiles env fls fs0) \<le> length fls"
    using loop_downloaded_le_length [of env "length fls" fls "dl_init fs0"]
    by (simp add: downloadFiles_fields dl_init_def)
next
  fix n st
  show "download_loop env n [] st = st" by simp
next
  fix n pre f st
  show "download_loop env n (pre @ [f]) st =
      download_step env n f (download_loop env n pre st)"
    by (rule loop_snoc)
next
  fix n f st
  show "downloaded (download_step env n f st) =
      downloaded st +
        (if has_url f \<and> existsSync (fs (download_step env n f st)) (target env f)
         then 1 else 0)"
    by (rule step_downloaded_fs)
next
  fix n f st
  assume a: "counted env f st \<and> \<not> existsSync (fs st) (target env f)"
  then have "has_url f" "fetch_and_write_ok env f st" by (auto simp: counted_def)
  then show "\<exists>res buffer.
         content_network env (fetched st @ [url_of f]) = ContentResponse res \<and>
         content_ok res \<and> arrayBuffer res = Inr buffer \<and>
         fs (download_step env n f st) = (fs st)(target env f \<mapsto> File buffer)"
    using step_saved_content [of f st env n] a by blast
next
  fix n f st
  assume "\<not> counted env f st"
  then show "fs (download_step env n f st) = fs st"
    using step_uncounted_fs by blast
next
  fix n f st
  show "\<exists>ev. dl_console (download_step env n f st) = dl_console st @ [ev] \<and>
      (event_total ev = None \<or> event_total ev = Some n) \<and>
      (event_downloaded ev = None \<or>
       event_downloaded ev = Some (downloaded (download_step env n f st)))"
    by (rule step_console_counts)
next
  show "downloaded (downloadFiles env fls fs0) =
     length (filter (\<lambda>i. counted env (fls ! i)
                            (download_loop env (length fls) (take i fls) (dl_init fs0)))
               [0 ..< length fls])"
    using loop_count [of env "length fls" fls "dl_init fs0"]
    by (simp add: downloadFiles_fields dl_init_def)
qed

text \<open>
  Six records of which one is downloaded; and three records of which the last is
  saved: it is counted, its content is on disk, and the record before it, whose fetch
  answers 500, changes nothing.
\<close>

theorem progress_counters_witness:
  "length ex_files = 6 \<and>
   downloaded (download_loop ex_env (length ex_files) [generic_file ''https://g/a.zip'']
                 (dl_init ex_fs0)) \<le> 1 \<and>
   downloaded (downloadFiles ex_env ex_files ex_fs0) = 1 \<and>
   last (dl_console (downloadFiles ex_env ex_files ex_fs0)) = AllProcessed 1 6 \<and>
   downloaded (downloadFiles ex_env ex_last_saved ex_fs0) = 1 \<and>
   last (dl_console (downloadFiles ex_env ex_last_saved ex_fs0)) = AllProcessed 1 3 \<and>
   fs (downloadFiles ex_env ex_last_saved ex_fs0) ''out/generic/a.zip'' = Some (File ''AAA'') \<and>
   counted ex_env (generic_file ''https://h/a.zip'')
     (download_loop ex_env 3 [image_without_url, generic_file ''https://g/a.zip''] (dl_init ex_fs0)) \<and>
   (\<exists>res buffer.
      content_network ex_env
        (fetched (download_loop ex_env 3 [image_without_url, generic_file ''https://g/a.zip'']
                    (dl_init ex_fs0)) @ [url_of (generic_file ''https://h/a.zip'')]) =
        ContentResponse res \<and>
      content_ok res \<and> arrayBuffer res = Inr buffer \<and>
      fs (download_step ex_env 3 (generic_file ''https://h/a.zip'')
            (download_loop ex_env 3 [image_without_url, generic_file ''https://g/a.zip'']
               (dl_init ex_fs0))) =
        (fs (download_loop ex_env 3 [image_without_url, generic_file ''https://g/a.zip'']
               (dl_init ex_fs0)))
          (target ex_env (generic_file ''https://h/a.zip'') \<mapsto> File buffer)) \<and>
   \<not> counted ex_env (generic_file ''https://g/a.zip'') (dl_init ex_fs0) \<and>
   fs (download_step ex_env 3 (generic_file ''https://g/a.zip'') (dl_init ex_fs0)) =
     fs (dl_init ex_fs0) \<and>
   length (filter (\<lambda>i. counted ex_env (ex_last_saved ! i)
                     (download_loop ex_env (length ex_last_saved) (take i ex_last_saved)
                        (dl_init ex_fs0)))
             [0 ..< length ex_last_saved]) = 1"
proof -
  let ?S = "download_loop ex_env 3 [image_without_url, generic_file ''https://g/a.zip'']
              (dl_init ex_fs0)"
  have l: "length ex_files = 6" by (simp add: ex_files_def ex_files3_def)
  have v: "downloaded (download_loop ex_env (length ex_files) ex_files (dl_init ex_fs0)) = 1"
    by code_simp
  have sp: "ex_files = [generic_file ''https://g/a.zip''] @
       [generic_file ''https://h/a.zip'', generic_file ''https://h/b.zip'',
        image_without_url, generic_file ''https://nohost/c.zip'', generic_file ''https://h/ro.zip'']"
    by (simp add: ex_files_def ex_files3_def)
  note t = progress_counters [of ex_fs0 ex_files ex_env]
  note u = progress_counters [of ex_fs0 ex_last_saved ex_env]
  have a: "downloaded (download_loop ex_env (length ex_files) [generic_file ''https://g/a.zip'']
                 (dl_init ex_fs0)) \<le> length [generic_file ''https://g/a.zip'']"
    using t [THEN conjunct2, THEN conjunct1] sp by blast
  have b: "downloaded (downloadFiles ex_env ex_files ex_fs0) = 1"
    using t [THEN conjunct2, THEN conjunct2, THEN conjunct2, THEN conjunct2, THEN conjunct2, THEN conjunct1] v by simp
  have c: "last (dl_console (downloadFiles ex_env ex_files ex_fs0)) = AllProcessed 1 6"
    using t [THEN conjunct2, THEN conjunct2, THEN conjunct2, THEN conjunct2, THEN conjunct1] v l by simp
  have l2: "length ex_last_saved = 3" by (simp add: ex_last_saved_def)
  have v2: "downloaded (download_loop ex_env (length ex_last_saved) ex_last_saved (dl_init ex_fs0)) = 1"
    by code_simp
  have d: "downloaded (downloadFiles ex_env ex_last_saved ex_fs0) = 1"
    using u [THEN conjunct2, THEN conjunct2, THEN conjunct2, THEN conjunct2, THEN conjunct2, THEN conjunct1] v2 by simp
  have e: "last (dl_console (downloadFiles ex_env ex_last_saved ex_fs0)) = AllProcessed 1 3"
    using u [THEN conjunct2, THEN conjunct2, THEN conjunct2, THEN conjunct2, THEN conjunct1] v2 l2 by simp
  have f: "fs (downloadFiles ex_env ex_last_saved ex_fs0) ''out/generic/a.zip'' = Some (File ''AAA'')"
    by code_simp
  have g: "counted ex_env (generic_file ''https://h/a.zip'') ?S"
    by code_simp
  have g': "\<not> existsSync (fs ?S) (target ex_env (generic_file ''https://h/a.zip''))"
    by code_simp
  have h: "\<exists>res buffer.
      content_network ex_env (fetched ?S @ [url_of (generic_file ''https://h/a.zip'')]) =
        ContentResponse res \<and>
      content_ok res \<and> arrayBuffer res = Inr buffer \<and>
      fs (download_step ex_env 3 (generic_file ''https://h/a.zip'') ?S) =
        (fs ?S)(target ex_env (generic_file ''https://h/a.zip'') \<mapsto> File buffer)"
    using u [THEN conjunct2, THEN conjunct2, THEN conjunct2, THEN conjunct2, THEN conjunct2, THEN conjunct2, THEN conjunct2, THEN conjunct2, THEN conjunct2, THEN conjunct2, THEN conjunct1] g g' by blast
  have i: "\<not> counted ex_env (generic_file ''https://g/a.zip'') (dl_init ex_fs0)"
    by code_simp
  have j: "fs (download_step ex_env 3 (generic_file ''https://g/a.zip'') (dl_init ex_fs0)) =
             fs (dl_init ex_fs0)"
    using u [THEN conjunct2, THEN conjunct2, THEN conjunct2, THEN conjunct2, THEN conjunct2, THEN conjunct2, THEN conjunct2, THEN conjunct2, THEN conjunct2, THEN conjunct2, THEN conjunct2, THEN conjunct1] i by blast
  have k: "length (filter (\<lambda>i. counted ex_env (ex_last_saved ! i)
                     (download_loop ex_env (length ex_last_saved) (take i ex_last_saved)
                        (dl_init ex_fs0)))
             [0 ..< length ex_last_saved]) = 1"
    using u [THEN conjunct2, THEN conjunct2, THEN conjunct2, THEN conjunct2, THEN conjunct2, THEN conjunct2, THEN conjunct2, THEN conjunct2, THEN conjunct2, THEN conjunct2, THEN conjunct2, THEN conjunct2, THEN conjunct2] d by simp
  show ?thesis using l a b c d e f g h i j k by simp
qed

text \<open>
  Claim C5. An iteration whose record is not counted (no URL, a response that is not
  \<open>ok\<close>, a rejected fetch or body, a failed write) appends one diagnostic line and
  leaves the counter and the file system as they were. The loop goes on with the
  records after it. The console of a run holds one line per record and then the
  summary: the run reaches its end over the whole sequence.
\<close>

theorem downloadFiles_completes:
  "(\<forall>n f st. \<not> counted env f st \<longrightarrow>
      (\<exists>ev. is_diagnostic ev \<and>
         download_step env n f st =
           st\<lparr>fetched := fetched (download_step env n f st),
              dl_console := dl_console st @ [ev]\<rparr>)) \<and>
   (\<forall>n pre f post st.
      download_loop env n (pre @ f # post) st =
        download_loop env n post (download_step env n f (download_loop env n pre st))) \<and>
   (\<exists>evs. length evs = length fls \<and>
      dl_console (downloadFiles env fls fs0) =
        evs @ [AllProcessed (downloaded (downloadFiles env fls fs0)) (length fls)])"
proof (intro conjI allI impI)
  fix n f st assume "\<not> counted env f st"
  then show "\<exists>ev. is_diagnostic ev \<and>
         download_step env n f st =
           st\<lparr>fetched := fetched (download_step env n f st),
              dl_console := dl_console st @ [ev]\<rparr>"
    by (rule step_failed)
next
  fix n pre f post st
  show "download_loop env n (pre @ f # post) st =
        download_loop env n post (download_step env n f (download_loop env n pre st))"
    by (simp add: loop_append)
next
  obtain evs where evs: "length evs = length fls"
      "dl_console (download_loop env (length fls) fls (dl_init fs0)) = dl_console (dl_init fs0) @ evs"
    using loop_console by blast
  then show "\<exists>evs. length evs = length fls \<and>
      dl_console (downloadFiles env fls fs0) =
        evs @ [AllProcessed (downloaded (downloadFiles env fls fs0)) (length fls)]"
    by (intro exI [of _ evs]) (simp add: downloadFiles_fields dl_init_def)
qed

text \<open>A run with one failure of each kind.\<close>

theorem downloadFiles_completes_witness:
  "\<not> counted ex_env (generic_file ''https://g/a.zip'') (dl_init ex_fs0) \<and>
   (\<exists>ev. is_diagnostic ev \<and>
      download_step ex_env 6 (generic_file ''https://g/a.zip'') (dl_init ex_fs0) =
        (dl_init ex_fs0)\<lparr>fetched := fetched (download_step ex_env 6
                               (generic_file ''https://g/a.zip'') (dl_init ex_fs0)),
                         dl_console := dl_console (dl_init ex_fs0) @ [ev]\<rparr>) \<and>
   dl_console (downloadFiles ex_env ex_files ex_fs0) =
     [FailedDownload ''a.zip'' ''Internal Server Error'',
      Saved 1 6 ''generic'' ''a.zip'',
      ErrorDownloading ''https://h/b.zip'' ''aborted'',
      SkippedNoUrl (Some ''gid://2'') ''MediaImage'',
      ErrorDownloading ''https://nohost/c.zip'' ''ENOTFOUND'',
      ErrorDownloading ''https://h/ro.zip'' ''EACCES'',
      AllProcessed 1 6]"
proof -
  have h: "\<not> counted ex_env (generic_file ''https://g/a.zip'') (dl_init ex_fs0)"
    by code_simp
  have c: "dl_console (downloadFiles ex_env ex_files ex_fs0) =
     [FailedDownload ''a.zip'' ''Internal Server Error'',
      Saved 1 6 ''generic'' ''a.zip'',
      ErrorDownloading ''https://h/b.zip'' ''aborted'',
      SkippedNoUrl (Some ''gid://2'') ''MediaImage'',
      ErrorDownloading ''https://nohost/c.zip'' ''ENOTFOUND'',
      ErrorDownloading ''https://h/ro.zip'' ''EACCES'',
      AllProcessed 1 6]"
    by code_simp
  show ?thesis
    using downloadFiles_completes [of ex_env ex_files ex_fs0] h c by blast
qed

text \<open>
  Claim C2, as the source has it. An iteration whose record is already at its target
  path counts it without fetching and without touching the file system. When the
  first run counted every record that has a URL (no fetch and no write failed), a
  second run over the same sequence, from the file system the first run left, with the
  same output directory (the network may have changed), fetches nothing, leaves the
  file system as it is, and ends with the same counter as the first run.
\<close>

theorem downloadFiles_second_run:
  "(\<forall>n f (st :: dl_state). has_url f \<and> existsSync (fs st) (target env f) \<longrightarrow>
      fetched (download_step env n f st) = fetched st \<and>
      fs (download_step env n f st) = fs st \<and>
      downloaded (download_step env n f st) = downloaded st + 1) \<and>
   (downloaded (downloadFiles env fls fs0) = length (filter has_url fls) \<and>
    OUTPUT_DIR env' = OUTPUT_DIR env \<and> path_join env' = path_join env \<longrightarrow>
      fetched (downloadFiles env' fls (fs (downloadFiles env fls fs0))) = [] \<and>
      downloaded (downloadFiles env' fls (fs (downloadFiles env fls fs0))) =
        downloaded (downloadFiles env fls fs0) \<and>
      fs (downloadFiles env' fls (fs (downloadFiles env fls fs0))) =
        fs (downloadFiles env fls fs0))"
proof (intro conjI)
  show "\<forall>n f (st :: dl_state). has_url f \<and> existsSync (fs st) (target env f) \<longrightarrow>
      fetched (download_step env n f st) = fetched st \<and>
      fs (download_step env n f st) = fs st \<and>
      downloaded (download_step env n f st) = downloaded st + 1"
    using step_present by blast
next
  show "downloaded (downloadFiles env fls fs0) = length (filter has_url fls) \<and>
    OUTPUT_DIR env' = OUTPUT_DIR env \<and> path_join env' = path_join env \<longrightarrow>
      fetched (downloadFiles env' fls (fs (downloadFiles env fls fs0))) = [] \<and>
      downloaded (downloadFiles env' fls (fs (downloadFiles env fls fs0))) =
        downloaded (downloadFiles env fls fs0) \<and>
      fs (downloadFiles env' fls (fs (downloadFiles env fls fs0))) =
        fs (downloadFiles env fls fs0)"
  proof
    assume h: "downloaded (downloadFiles env fls fs0) = length (filter has_url fls) \<and>
      OUTPUT_DIR env' = OUTPUT_DIR env \<and> path_join env' = path_join env"
    let ?n = "length fls"
    let ?r1 = "download_loop env ?n fls (dl_init fs0)"
    have c: "downloaded ?r1 = downloaded (dl_init fs0) + length (filter has_url fls)"
      using h by (simp add: downloadFiles_fields dl_init_def)
    have tc: "\<And>f. target env' f = target env f"
      using h target_cong by blast
    have p: "\<And>f. f \<in> set fls \<Longrightarrow> has_url f \<Longrightarrow>
               existsSync (fs (dl_init (fs ?r1))) (target env' f)"
    proof -
      fix f assume "f \<in> set fls" "has_url f"
      then have "existsSync (fs ?r1) (target env f)"
        using loop_all_counted [OF c] by blast
      then show "existsSync (fs (dl_init (fs ?r1))) (target env' f)"
        using tc by (simp add: dl_init_def)
    qed
    have "fetched (download_loop env' ?n fls (dl_init (fs ?r1))) = fetched (dl_init (fs ?r1)) \<and>
          fs (download_loop env' ?n fls (dl_init (fs ?r1))) = fs (dl_init (fs ?r1)) \<and>
          downloaded (download_loop env' ?n fls (dl_init (fs ?r1))) =
            downloaded (dl_init (fs ?r1)) + length (filter has_url fls)"
      using loop_all_present [of fls "dl_init (fs ?r1)" env' ?n] p by blast
    then show "fetched (downloadFiles env' fls (fs (downloadFiles env fls fs0))) = [] \<and>
        downloaded (downloadFiles env' fls (fs (downloadFiles env fls fs0))) =
          downloaded (downloadFiles env fls fs0) \<and>
        fs (downloadFiles env' fls (fs (downloadFiles env fls fs0))) =
          fs (downloadFiles env fls fs0)"
      using h by (simp add: downloadFiles_fields dl_init_def)
  qed
qed

text \<open>
  A first run without failure, and a second run with the network gone; and one
  iteration on a record that is already at its target path.
\<close>

theorem downloadFiles_second_run_witness:
  "downloaded (downloadFiles ex_env ex_clean_files ex_fs0) = length (filter has_url ex_clean_files) \<and>
   fetched (downloadFiles ex_env ex_clean_files ex_fs0) = [''https://h/a.zip''] \<and>
   fetched (downloadFiles ex_offline ex_clean_files
              (fs (downloadFiles ex_env ex_clean_files ex_fs0))) = [] \<and>
   downloaded (downloadFiles ex_offline ex_clean_files
              (fs (downloadFiles ex_env ex_clean_files ex_fs0))) = 1 \<and>
   has_url (generic_file ''https://h/a.zip'') \<and>
   existsSync (fs (dl_init ex_fs1)) (target ex_offline (generic_file ''https://h/a.zip'')) \<and>
   fetched (download_step ex_offline 2 (generic_file ''https://h/a.zip'') (dl_init ex_fs1)) = [] \<and>
   downloaded (download_step ex_offline 2 (generic_file ''https://h/a.zip'') (dl_init ex_fs1)) = 1"
proof -
  have a: "downloaded (downloadFiles ex_env ex_clean_files ex_fs0) =
             length (filter has_url ex_clean_files)"
    by code_simp
  have b: "OUTPUT_DIR ex_offline = OUTPUT_DIR ex_env" "path_join ex_offline = path_join ex_env"
    by (simp_all add: ex_offline_def)
  have c: "fetched (downloadFiles ex_env ex_clean_files ex_fs0) = [''https://h/a.zip'']"
    by code_simp
  have d: "downloaded (downloadFiles ex_env ex_clean_files ex_fs0) = 1"
    by code_simp
  note t = downloadFiles_second_run
             [where env = ex_env and env' = ex_offline and fls = ex_clean_files and ?fs0.0 = ex_fs0]
  have r: "fetched (downloadFiles ex_offline ex_clean_files
              (fs (downloadFiles ex_env ex_clean_files ex_fs0))) = [] \<and>
           downloaded (downloadFiles ex_offline ex_clean_files
              (fs (downloadFiles ex_env ex_clean_files ex_fs0))) =
             downloaded (downloadFiles ex_env ex_clean_files ex_fs0)"
    using t [THEN conjunct2] a b by blast
  have u: "has_url (generic_file ''https://h/a.zip'')" by code_simp
  have e: "existsSync (fs (dl_init ex_fs1)) (target ex_offline (generic_file ''https://h/a.zip''))"
    by code_simp
  note s = downloadFiles_second_run
             [where env = ex_offline and env' = ex_offline and fls = ex_clean_files
                and ?fs0.0 = ex_fs0]
  have q: "fetched (download_step ex_offline 2 (generic_file ''https://h/a.zip'') (dl_init ex_fs1)) =
             fetched (dl_init ex_fs1) \<and>
           downloaded (download_step ex_offline 2 (generic_file ''https://h/a.zip'') (dl_init ex_fs1)) =
             downloaded (dl_init ex_fs1) + 1"
    using s [THEN conjunct1] u e by blast
  show ?thesis using a c d r u e q by (simp add: dl_init_def)
qed

text \<open>
  The claim as written holds of every sequence. With three records for two target
  paths, of which the first fetch answers 500 and the third breaks off, the first run
  counts one record; the second run finds the first two records at their path, counts
  two, and fetches the third again.
\<close>

theorem downloadFiles_second_run_counterexample:
  "downloaded (downloadFiles ex_env ex_files3 ex_fs0) = 1 \<and>
   downloaded (downloadFiles ex_env ex_files3 (fs (downloadFiles ex_env ex_files3 ex_fs0))) = 2 \<and>
   fetched (downloadFiles ex_env ex_files3 (fs (downloadFiles ex_env ex_files3 ex_fs0))) =
     [''https://h/b.zip'']"
  by code_simp

section \<open>Failure of the enumeration\<close>

lemma main_on_enumeration_failure:
  "fetchAllFiles ep = Some (Inl (err, out)) \<Longrightarrow>
   main ep env fs0 =
     Some \<lparr>exit_code = 0, run_console = [FetchingAll] @ out @ [ErrorLine err],
            run_fs = fs0, run_fetched = []\<rparr>"
  by (simp add: main_def)

text \<open>
  Claim C7, at failing inputs. When the first page request is rejected, and when the
  second is rejected after a first page of two nodes, the main function writes the
  error line, runs no download with what was enumerated and changes no file, and the
  process ends with exit status 0; the check of the configuration, the other fatal
  path of the program, ends it with exit status 1.
\<close>

theorem main_enumeration_failure_exit_status:
  "main (scripted [FetchRejected ''ECONNREFUSED'']) env fs0 =
     Some \<lparr>exit_code = 0,
            run_console = [FetchingAll, FetchingPage 1, ErrorLine (NetworkError ''ECONNREFUSED'')],
            run_fs = fs0, run_fetched = []\<rparr> \<and>
   main (scripted [page_of (ex_pages ! 0), FetchRejected ''ECONNRESET'']) env fs0 =
     Some \<lparr>exit_code = 0,
            run_console = [FetchingAll, FetchingPage 1, FetchingPage 2,
                           ErrorLine (NetworkError ''ECONNRESET'')],
            run_fs = fs0, run_fetched = []\<rparr> \<and>
   config_check None (Some ''token'') = Some (1, [MissingConfig])"
proof -
  have "fetch_step (FetchRejected ''ECONNREFUSED'') enum_init =
          Inl (NetworkError ''ECONNREFUSED'', [FetchingPage 1])"
    by (simp add: fetch_step_def enum_init_def)
  then have "fetchAllFiles_loop (scripted [FetchRejected ''ECONNREFUSED'']) enum_init =
               Some (Inl (NetworkError ''ECONNREFUSED'', [FetchingPage 1]))"
    by (intro loop_throw) (simp_all add: enum_init_def scripted_def)
  then have a: "fetchAllFiles (scripted [FetchRejected ''ECONNREFUSED'']) =
               Some (Inl (NetworkError ''ECONNREFUSED'', [FetchingPage 1]))"
    by (simp add: fetchAllFiles_def)
  have b: "fetchAllFiles (scripted [page_of (ex_pages ! 0), FetchRejected ''ECONNRESET'']) =
             Some (Inl (NetworkError ''ECONNRESET'', [FetchingPage 1, FetchingPage 2]))"
    by (simp add: fetchAllFiles_def loop_reject_after_first_page)
  show ?thesis
    using main_on_enumeration_failure [OF a, of env fs0]
          main_on_enumeration_failure [OF b, of env fs0]
    by (simp add: config_check_def falsy_def)
qed

end
